theory Spec2Isabelle
  imports Main "HOL-Library.Word" "HOL-Library.AList" "HOL-Library.Sublist"
    "HOL-Library.List_Lexorder"
begin

section \<open>Bytes, slices and struct packing\<close>

text \<open>
  Python \<open>bytes\<close> are lists of 8-bit words.  The slices used by the block processor are
  written with Python's clamping rules: a negative bound counts from the end and is
  clamped at 0, a positive bound is clamped at the length.
\<close>

type_synonym bytes = "8 word list"

definition norm_index :: "'a list \<Rightarrow> int \<Rightarrow> nat" where
  "norm_index xs i =
     (if i < 0 then nat (max (i + int (length xs)) 0) else min (nat i) (length xs))"

text \<open>\<open>xs[a:b]\<close>, \<open>xs[a:]\<close> and \<open>xs[:b]\<close>.\<close>

definition py_slice :: "'a list \<Rightarrow> int \<Rightarrow> int \<Rightarrow> 'a list" where
  "py_slice xs a b = drop (norm_index xs a) (take (norm_index xs b) xs)"

definition slice_from :: "'a list \<Rightarrow> int \<Rightarrow> 'a list" where
  "slice_from xs a = drop (norm_index xs a) xs"

definition slice_to :: "'a list \<Rightarrow> int \<Rightarrow> 'a list" where
  "slice_to xs b = take (norm_index xs b) xs"

text \<open>
  \<open>struct.pack\<close> with the little-endian formats \<open><H\<close>, \<open><I\<close> and \<open><Q\<close>: it raises
  \<open>struct.error\<close> (here \<open>None\<close>) when the number is out of range.
\<close>

fun le_bytes :: "nat \<Rightarrow> int \<Rightarrow> bytes" where
  "le_bytes 0 n = []"
| "le_bytes (Suc k) n = word_of_int n # le_bytes k (n div 256)"

definition pack_H :: "int \<Rightarrow> bytes option" where
  "pack_H n = (if 0 \<le> n \<and> n < 2 ^ 16 then Some (le_bytes 2 n) else None)"

definition pack_I :: "int \<Rightarrow> bytes option" where
  "pack_I n = (if 0 \<le> n \<and> n < 2 ^ 32 then Some (le_bytes 4 n) else None)"

definition pack_Q :: "int \<Rightarrow> bytes option" where
  "pack_Q n = (if 0 \<le> n \<and> n < 2 ^ 64 then Some (le_bytes 8 n) else None)"

fun le_int :: "bytes \<Rightarrow> int" where
  "le_int [] = 0"
| "le_int (b # bs) = uint b + 256 * le_int bs"

text \<open>\<open>unpack('<I', b)\<close> raises \<open>struct.error\<close> unless \<open>b\<close> has exactly four bytes.\<close>

definition unpack_I :: "bytes \<Rightarrow> int option" where
  "unpack_I b = (if length b = 4 then Some (le_int b) else None)"

section \<open>The key/value store\<close>

text \<open>
  The UTXO store is an ordered key/value store.  It is modelled as an association list
  with the dictionary operations of \<open>AList\<close>; the prefix iterator yields the matching
  rows in key order.
\<close>

type_synonym kv = "(bytes \<times> bytes) list"

definition db_get :: "kv \<Rightarrow> bytes \<Rightarrow> bytes option" where
  "db_get db k = map_of db k"

definition db_put :: "bytes \<Rightarrow> bytes \<Rightarrow> kv \<Rightarrow> kv" where
  "db_put k v db = AList.update k v db"

definition db_delete :: "bytes \<Rightarrow> kv \<Rightarrow> kv" where
  "db_delete k db = AList.delete k db"

definition db_iterator :: "kv \<Rightarrow> bytes \<Rightarrow> (bytes \<times> bytes) list" where
  "db_iterator db p = sort_key fst (filter (\<lambda>(k, v). prefix p k) (AList.clearjunk db))"

section \<open>Blocks, errors and the state of the block processor\<close>

record txin =
  prev_hash :: bytes
  prev_idx :: int

record txout =
  out_value :: int
  pk_script :: bytes

record tx =
  is_coinbase :: bool
  inputs :: "txin list"
  outputs :: "txout list"

record block =
  raw :: bytes
  header :: bytes
  transactions :: "(tx \<times> bytes) list"

text \<open>
  \<open>ChainError\<close> is raised in three places, told apart by their message; the other
  errors are the Python exceptions that the modelled statements can raise.
\<close>

datatype chain_error = BackupNotTip | NoUndoInfo | UtxoNotFound

datatype error = ChainError chain_error | AssertionError | StructError | IndexError

text \<open>
  Modelled from the spec: the history sub-index (\<open>electrumx.server.history\<close>) is not part
  of the sources.  It keeps the batches handed to \<open>add_unflushed\<close> until \<open>flush\<close>, counts
  its flushes, and \<open>assert_flushed\<close> holds when nothing is unflushed.
\<close>

record history =
  unflushed :: "(bytes list list \<times> int) list"
  flush_count :: int

record bp =
  height :: int
  tip :: bytes
  tx_count :: int
  tx_counts :: "int list"
  fs_height :: int
  fs_tx_count :: int
  db_height :: int
  db_tx_count :: int
  db_tip :: bytes
  last_flush_tx_count :: int
  utxo_flush_count :: int
  headers :: "bytes list"
  tx_hashes :: "bytes list"
  undo_infos :: "(bytes list \<times> int) list"
  utxo_cache :: "(bytes \<times> bytes) list"
  db_deletes :: "bytes list"
  touched :: "bytes set"
  utxo_db :: kv
  hist :: history
  hashes_file :: bytes
  headers_file :: "bytes list"
  raw_blocks_archive :: "(int \<times> bytes) list"
  caught_up :: bool

text \<open>
  An exception leaves the object as it was mutated up to the raise, so an error carries
  the state at the raise.
\<close>

type_synonym 'a result = "(error \<times> bp) + 'a"

text \<open>
  Modelled from the spec: \<open>fs_tx_hash\<close> of the absent \<open>electrumx.server.db\<close> maps a
  transaction ordinal to its 32-byte hash in the file of transaction hashes and to its
  height; the hash is \<open>None\<close> when the record is not on file.
\<close>

definition fs_tx_hash :: "bp \<Rightarrow> int \<Rightarrow> bytes option \<times> int" where
  "fs_tx_hash s tx_num =
     (if 0 \<le> tx_num \<and> 32 * nat tx_num + 32 \<le> length (hashes_file s)
      then Some (take 32 (drop (32 * nat tx_num) (hashes_file s))) else None,
      int (length (filter (\<lambda>c. c \<le> tx_num) (tx_counts s))))"

section \<open>Spending a UTXO\<close>

text \<open>
  The loop of \<open>spend_utxo\<close> over the candidates of the prefix scan; \<open>n\<close> is
  \<open>len(candidates)\<close>.
\<close>

fun scan_candidates ::
  "bp \<Rightarrow> bytes \<Rightarrow> nat \<Rightarrow> (bytes \<times> bytes) list \<Rightarrow> (bytes \<times> bp) result" where
  "scan_candidates s tx_hash n [] = Inl (ChainError UtxoNotFound, s)"
| "scan_candidates s tx_hash n ((hdb_key, hashX) # rest) =
     (let tx_num_packed = slice_from hdb_key (- 4);
          try_u = (let udb_key = 117 # hashX @ slice_from hdb_key (- 6) in
                   case db_get (utxo_db s) udb_key of
                     None \<Rightarrow> scan_candidates s tx_hash n rest
                   | Some utxo_value_packed \<Rightarrow>
                       if utxo_value_packed \<noteq> []
                       then Inr (hashX @ tx_num_packed @ utxo_value_packed,
                                 s\<lparr>db_deletes := db_deletes s @ [hdb_key, udb_key]\<rparr>)
                       else scan_candidates s tx_hash n rest)
      in if 1 < n then
           (case unpack_I tx_num_packed of
              None \<Rightarrow> Inl (StructError, s)
            | Some tx_num \<Rightarrow>
                (case fst (fs_tx_hash s tx_num) of
                   None \<Rightarrow> Inl (AssertionError, s)
                 | Some hash \<Rightarrow>
                     if hash \<noteq> tx_hash then scan_candidates s tx_hash n rest else try_u))
         else try_u)"

definition spend_utxo :: "bp \<Rightarrow> bytes \<Rightarrow> int \<Rightarrow> (bytes \<times> bp) result" where
  "spend_utxo s tx_hash tx_idx =
     (case pack_H tx_idx of
        None \<Rightarrow> Inl (StructError, s)
      | Some idx_packed \<Rightarrow>
          (let cache_value = map_of (utxo_cache s) (tx_hash @ idx_packed);
               s1 = s\<lparr>utxo_cache := AList.delete (tx_hash @ idx_packed) (utxo_cache s)\<rparr>
           in if cache_value \<noteq> None \<and> cache_value \<noteq> Some []
              then Inr (the cache_value, s1)
              else (let prefix = 104 # take 4 tx_hash @ idx_packed;
                        candidates = db_iterator (utxo_db s1) prefix
                    in scan_candidates s1 tx_hash (length candidates) candidates)))"


section \<open>External collaborators\<close>

text \<open>
  The coin decoder, the daemon, the configuration and the parts of the absent database
  layer that are only tunables or encodings are parameters of the model.
  \<open>daemon_cached_height\<close> is the value \<open>daemon.cached_height()\<close> returns,
  \<open>min_undo_height\<close> the database layer's function of that name, \<open>undo_key\<close> the
  store key of the undo record of a height, \<open>state_key\<close> and \<open>encode_state\<close> the key
  and the serialisation of the persisted chain state, and \<open>unflushed_memsize\<close> the
  history sub-index's estimate of its unflushed memory.
\<close>

record env =
  coin_block :: "bytes \<Rightarrow> int \<Rightarrow> block"
  header_hash :: "bytes \<Rightarrow> bytes"
  header_prevhash :: "bytes \<Rightarrow> bytes"
  hashX_from_script :: "bytes \<Rightarrow> bytes option"
  cache_MB :: int
  daemon_cached_height :: int
  min_undo_height :: "int \<Rightarrow> int"
  undo_key :: "int \<Rightarrow> bytes"
  state_key :: bytes
  encode_state :: "bp \<Rightarrow> bytes"
  unflushed_memsize :: "history \<Rightarrow> int"

text \<open>
  Modelled from the spec: \<open>HASHX_LEN\<close> of the absent \<open>electrumx.lib.hash\<close>; the address
  fingerprint is an 11-byte prefix.
\<close>

definition HASHX_LEN :: nat where
  "HASHX_LEN = 11"

text \<open>
  Modelled from the spec: the history sub-index's \<open>add_unflushed\<close>, \<open>flush\<close>, \<open>backup\<close>
  and \<open>assert_flushed\<close>.
\<close>

definition hist_add_unflushed :: "history \<Rightarrow> bytes list list \<Rightarrow> int \<Rightarrow> history" where
  "hist_add_unflushed h hashXs_by_tx first_tx_num =
     h\<lparr>unflushed := unflushed h @ [(hashXs_by_tx, first_tx_num)]\<rparr>"

definition hist_flush :: "history \<Rightarrow> history" where
  "hist_flush h = h\<lparr>unflushed := [], flush_count := flush_count h + 1\<rparr>"

definition hist_backup :: "history \<Rightarrow> bytes set \<Rightarrow> int \<Rightarrow> history" where
  "hist_backup h hashXs tx_count' = h\<lparr>flush_count := flush_count h + 1\<rparr>"

definition hist_assert_flushed :: "history \<Rightarrow> bool" where
  "hist_assert_flushed h = (unflushed h = [])"

text \<open>
  Modelled from the spec: \<open>fs_update\<close> of the absent \<open>electrumx.server.db\<close> appends the
  cached headers and transaction hashes to the files at the filesystem pointers;
  \<open>write_raw_block\<close> and \<open>read_raw_block\<close> store and read the raw-block archive by
  height; \<open>flush_undo_infos\<close> puts each undo record, flattened, under the key of its
  height and \<open>read_undo_info\<close> reads it back; \<open>write_utxo_state\<close> puts the chain state.
\<close>

definition write_at :: "bytes \<Rightarrow> nat \<Rightarrow> bytes \<Rightarrow> bytes" where
  "write_at file off data =
     take off file @ replicate (off - length file) 0 @ data @ drop (off + length data) file"

definition fs_update :: "bp \<Rightarrow> bp" where
  "fs_update s =
     s\<lparr>hashes_file := write_at (hashes_file s) (32 * nat (fs_tx_count s)) (concat (tx_hashes s)),
       headers_file := take (nat (fs_height s + 1)) (headers_file s) @ headers s\<rparr>"

definition write_raw_block :: "bytes \<Rightarrow> int \<Rightarrow> bp \<Rightarrow> bp" where
  "write_raw_block raw_block h s =
     s\<lparr>raw_blocks_archive := AList.update h raw_block (raw_blocks_archive s)\<rparr>"

definition read_raw_block :: "bp \<Rightarrow> int \<Rightarrow> bytes option" where
  "read_raw_block s h = map_of (raw_blocks_archive s) h"

fun flush_undo_infos :: "env \<Rightarrow> (bytes list \<times> int) list \<Rightarrow> kv \<Rightarrow> kv" where
  "flush_undo_infos E [] db = db"
| "flush_undo_infos E ((undo_info, h) # rest) db =
     flush_undo_infos E rest (db_put (undo_key E h) (concat undo_info) db)"

definition read_undo_info :: "env \<Rightarrow> bp \<Rightarrow> int \<Rightarrow> bytes option" where
  "read_undo_info E s h = db_get (utxo_db s) (undo_key E h)"

definition write_utxo_state :: "env \<Rightarrow> bp \<Rightarrow> kv \<Rightarrow> kv" where
  "write_utxo_state E s db = db_put (state_key E) (encode_state E s) db"

section \<open>Advancing\<close>

text \<open>The loop of \<open>advance_txs\<close> over the inputs of a transaction.\<close>

fun spend_inputs ::
  "bp \<Rightarrow> txin list \<Rightarrow> bytes list \<Rightarrow> bytes list \<Rightarrow> (bp \<times> bytes list \<times> bytes list) result" where
  "spend_inputs s [] undo_info hashXs = Inr (s, undo_info, hashXs)"
| "spend_inputs s (txin # rest) undo_info hashXs =
     (case spend_utxo s (prev_hash txin) (prev_idx txin) of
        Inl e \<Rightarrow> Inl e
      | Inr (cache_value, s') \<Rightarrow>
          spend_inputs s' rest (undo_info @ [cache_value])
            (hashXs @ [slice_to cache_value (- 12)]))"

text \<open>The loop over the outputs; \<open>idx\<close> is the counter of \<open>enumerate\<close>.\<close>

fun add_outputs ::
  "env \<Rightarrow> bp \<Rightarrow> bytes \<Rightarrow> bytes \<Rightarrow> nat \<Rightarrow> txout list \<Rightarrow> bytes list \<Rightarrow>
   (bp \<times> bytes list) result" where
  "add_outputs E s tx_hash tx_numb idx [] hashXs = Inr (s, hashXs)"
| "add_outputs E s tx_hash tx_numb idx (txout # rest) hashXs =
     (case hashX_from_script E (pk_script txout) of
        None \<Rightarrow> add_outputs E s tx_hash tx_numb (idx + 1) rest hashXs
      | Some hashX \<Rightarrow>
          if hashX = [] then add_outputs E s tx_hash tx_numb (idx + 1) rest hashXs
          else (case pack_H (int idx) of
                  None \<Rightarrow> Inl (StructError, s)
                | Some idx_packed \<Rightarrow>
                    (case pack_Q (out_value txout) of
                       None \<Rightarrow> Inl (StructError, s)
                     | Some value_packed \<Rightarrow>
                         add_outputs E
                           (s\<lparr>utxo_cache := AList.update (tx_hash @ idx_packed)
                                 (hashX @ tx_numb @ value_packed) (utxo_cache s)\<rparr>)
                           tx_hash tx_numb (idx + 1) rest (hashXs @ [hashX]))))"

text \<open>The loop over the transactions of a block.\<close>

fun advance_txs_loop ::
  "env \<Rightarrow> bp \<Rightarrow> (tx \<times> bytes) list \<Rightarrow> bytes list \<Rightarrow> int \<Rightarrow> bytes list list \<Rightarrow>
   (bp \<times> bytes list \<times> int \<times> bytes list list) result" where
  "advance_txs_loop E s [] undo_info tx_num hashXs_by_tx =
     Inr (s, undo_info, tx_num, hashXs_by_tx)"
| "advance_txs_loop E s ((tx, tx_hash) # rest) undo_info tx_num hashXs_by_tx =
     (case pack_I tx_num of
        None \<Rightarrow> Inl (StructError, s)
      | Some tx_numb \<Rightarrow>
          (case (if is_coinbase tx then Inr (s, undo_info, [])
                 else spend_inputs s (inputs tx) undo_info []) of
             Inl e \<Rightarrow> Inl e
           | Inr (s1, undo_info1, hashXs1) \<Rightarrow>
               (case add_outputs E s1 tx_hash tx_numb 0 (outputs tx) hashXs1 of
                  Inl e \<Rightarrow> Inl e
                | Inr (s2, hashXs2) \<Rightarrow>
                    advance_txs_loop E (s2\<lparr>touched := touched s2 \<union> set hashXs2\<rparr>) rest
                      undo_info1 (tx_num + 1) (hashXs_by_tx @ [hashXs2]))))"

definition advance_txs :: "env \<Rightarrow> bp \<Rightarrow> (tx \<times> bytes) list \<Rightarrow> (bytes list \<times> bp) result" where
  "advance_txs E s txs =
     (let s0 = s\<lparr>tx_hashes := tx_hashes s @ [concat (map snd txs)]\<rparr>
      in case advance_txs_loop E s0 txs [] (tx_count s0) [] of
           Inl e \<Rightarrow> Inl e
         | Inr (s1, undo_info, tx_num, hashXs_by_tx) \<Rightarrow>
             Inr (undo_info,
                  s1\<lparr>hist := hist_add_unflushed (hist s1) hashXs_by_tx (tx_count s1),
                     tx_count := tx_num,
                     tx_counts := tx_counts s1 @ [tx_num]\<rparr>))"

section \<open>Flushing\<close>

definition assert_flushed :: "bp \<Rightarrow> bool" where
  "assert_flushed s =
     (tx_count s = fs_tx_count s \<and> fs_tx_count s = db_tx_count s \<and>
      height s = fs_height s \<and> fs_height s = db_height s \<and>
      undo_infos s = [] \<and> utxo_cache s = [] \<and> db_deletes s = [] \<and>
      hist_assert_flushed (hist s))"

text \<open>
  The second assertion of \<open>fs_flush\<close> reads
  \<open>assert (tx_count == tx_counts[-1]) if tx_counts else 0\<close>: with no \<open>tx_counts\<close> it
  asserts \<open>0\<close> and fails.
\<close>

definition fs_flush :: "bp \<Rightarrow> bp result" where
  "fs_flush s =
     (if fs_height s + int (length (headers s)) \<noteq> height s then Inl (AssertionError, s)
      else if tx_counts s = [] then Inl (AssertionError, s)
      else if tx_count s \<noteq> last (tx_counts s) then Inl (AssertionError, s)
      else Inr ((fs_update s)\<lparr>fs_height := height s, fs_tx_count := tx_count s,
                               tx_hashes := [], headers := []\<rparr>))"

text \<open>The two puts of \<open>flush_utxos\<close> for one cache entry.\<close>

definition put_cache_entry :: "bytes \<times> bytes \<Rightarrow> kv \<Rightarrow> kv" where
  "put_cache_entry e db =
     (let cache_key = fst e; cache_value = snd e;
          hashX = slice_to cache_value (- 12);
          suffix = slice_from cache_key (- 2) @ py_slice cache_value (- 12) (- 8)
      in db_put (117 # hashX @ suffix) (slice_from cache_value (- 8))
           (db_put (104 # take 4 cache_key @ suffix) hashX db))"

text \<open>
  The write batch commits atomically; its deletes and puts are applied to the store in
  the order they were issued.
\<close>

definition flush_utxos :: "env \<Rightarrow> bp \<Rightarrow> bp" where
  "flush_utxos E s =
     (let db1 = fold db_delete (sort (db_deletes s)) (utxo_db s);
          db2 = fold put_cache_entry (utxo_cache s) db1;
          db3 = flush_undo_infos E (undo_infos s) db2
      in s\<lparr>utxo_db := db3, db_deletes := [], utxo_cache := [], undo_infos := [],
           utxo_flush_count := flush_count (hist s),
           db_tx_count := tx_count s, db_height := height s, db_tip := tip s\<rparr>)"

text \<open>\<open>flush_state\<close>; the wall-clock accounting is not part of the model.\<close>

definition flush_state :: "env \<Rightarrow> bp \<Rightarrow> bp" where
  "flush_state E s =
     (let s1 = s\<lparr>last_flush_tx_count := tx_count s\<rparr>
      in s1\<lparr>utxo_db := write_utxo_state E s1 (utxo_db s1)\<rparr>)"

text \<open>
  \<open>flush\<close>.  The log lines and the catch-up statistics, which read the wall clock, are
  left out.
\<close>

definition flush :: "env \<Rightarrow> bp \<Rightarrow> bool \<Rightarrow> bp result" where
  "flush E s flush_utxos' =
     (if height s = db_height s
      then (if assert_flushed s then Inr s else Inl (AssertionError, s))
      else (case fs_flush s of
              Inl e \<Rightarrow> Inl e
            | Inr s1 \<Rightarrow>
                (let s2 = s1\<lparr>hist := hist_flush (hist s1)\<rparr>;
                     s3 = (if flush_utxos' then flush_utxos E s2 else s2);
                     s4 = flush_state E s3
                 in Inr (flush_state E s4))))"

definition backup_flush :: "env \<Rightarrow> bp \<Rightarrow> bp result" where
  "backup_flush E s =
     (if \<not> height s < db_height s then Inl (AssertionError, s)
      else if \<not> hist_assert_flushed (hist s) then Inl (AssertionError, s)
      else (let s1 = s\<lparr>fs_height := height s, fs_tx_count := tx_count s\<rparr>
            in if headers s1 \<noteq> [] then Inl (AssertionError, s1)
               else if tx_hashes s1 \<noteq> [] then Inl (AssertionError, s1)
               else (let s2 = s1\<lparr>hist := hist_backup (hist s1) (touched s1) (tx_count s1)\<rparr>
                     in Inr (flush_state E (flush_utxos E s2)))))"

definition check_cache_size :: "env \<Rightarrow> bp \<Rightarrow> bp result" where
  "check_cache_size E s =
     (let one_MB = 1000 * 1000;
          utxo_cache_size = int (length (utxo_cache s)) * 205;
          db_deletes_size = int (length (db_deletes s)) * 57;
          hist_cache_size = unflushed_memsize E (hist s);
          tx_hash_size = (tx_count s - fs_tx_count s) * 32 + (height s - fs_height s) * 42;
          utxo_MB = (db_deletes_size + utxo_cache_size) div one_MB;
          hist_MB = (hist_cache_size + tx_hash_size) div one_MB
      in if utxo_MB + hist_MB \<ge> cache_MB E \<or> hist_MB \<ge> cache_MB E div 5
         then flush E s (utxo_MB \<ge> cache_MB E * 4 div 5)
         else Inr s)"

text \<open>
  \<open>advance_blocks\<close>.  \<open>cache_check_due\<close> stands for the test
  \<open>time.time() > self.next_cache_check\<close>.
\<close>

fun advance_blocks_loop :: "env \<Rightarrow> bp \<Rightarrow> int \<Rightarrow> int \<Rightarrow> block list \<Rightarrow> (bp \<times> int) result" where
  "advance_blocks_loop E s min_height h [] = Inr (s, h)"
| "advance_blocks_loop E s min_height h (b # rest) =
     (case advance_txs E s (transactions b) of
        Inl e \<Rightarrow> Inl e
      | Inr (undo_info, s1) \<Rightarrow>
          advance_blocks_loop E
            (if h + 1 \<ge> min_height
             then write_raw_block (raw b) (h + 1)
                    (s1\<lparr>undo_infos := undo_infos s1 @ [(undo_info, h + 1)]\<rparr>)
             else s1)
            min_height (h + 1) rest)"

definition advance_blocks :: "env \<Rightarrow> bool \<Rightarrow> bp \<Rightarrow> block list \<Rightarrow> bp result" where
  "advance_blocks E cache_check_due s blocks =
     (let min_height = min_undo_height E (daemon_cached_height E)
      in case advance_blocks_loop E s min_height (height s) blocks of
           Inl e \<Rightarrow> Inl e
         | Inr (s1, h) \<Rightarrow>
             (let hdrs = map header blocks;
                  s2 = s1\<lparr>height := h, headers := headers s1 @ hdrs\<rparr>
              in if hdrs = [] then Inl (IndexError, s2)
                 else (let s3 = s2\<lparr>tip := header_hash E (last hdrs)\<rparr>
                       in if caught_up s3 then flush E s3 True
                          else if cache_check_due then check_cache_size E s3
                          else Inr s3)))"

section \<open>Backing up\<close>

text \<open>The loops of \<open>backup_txs\<close> over the outputs and, in reverse, the inputs.\<close>

fun spend_outputs :: "env \<Rightarrow> bp \<Rightarrow> bytes \<Rightarrow> nat \<Rightarrow> txout list \<Rightarrow> bp result" where
  "spend_outputs E s tx_hash idx [] = Inr s"
| "spend_outputs E s tx_hash idx (txout # rest) =
     (case hashX_from_script E (pk_script txout) of
        None \<Rightarrow> spend_outputs E s tx_hash (idx + 1) rest
      | Some hashX \<Rightarrow>
          if hashX = [] then spend_outputs E s tx_hash (idx + 1) rest
          else (case spend_utxo s tx_hash (int idx) of
                  Inl e \<Rightarrow> Inl e
                | Inr (cache_value, s') \<Rightarrow>
                    spend_outputs E
                      (s'\<lparr>touched := insert (slice_to cache_value (- 12)) (touched s')\<rparr>)
                      tx_hash (idx + 1) rest))"

fun restore_inputs :: "bp \<Rightarrow> bytes \<Rightarrow> int \<Rightarrow> txin list \<Rightarrow> (bp \<times> int) result" where
  "restore_inputs s undo_info n [] = Inr (s, n)"
| "restore_inputs s undo_info n (txin # rest) =
     (let n' = n - int (12 + HASHX_LEN);
          undo_item = py_slice undo_info n' (n' + int (12 + HASHX_LEN))
      in case pack_H (prev_idx txin) of
           None \<Rightarrow> Inl (StructError, s)
         | Some idx_packed \<Rightarrow>
             restore_inputs
               (s\<lparr>utxo_cache := AList.update (prev_hash txin @ idx_packed) undo_item
                                  (utxo_cache s),
                  touched := insert (slice_to undo_item (- 12)) (touched s)\<rparr>)
               undo_info n' rest)"

fun backup_txs_loop ::
  "env \<Rightarrow> bp \<Rightarrow> bytes \<Rightarrow> int \<Rightarrow> (tx \<times> bytes) list \<Rightarrow> (bp \<times> int) result" where
  "backup_txs_loop E s undo_info n [] = Inr (s, n)"
| "backup_txs_loop E s undo_info n ((tx, tx_hash) # rest) =
     (case spend_outputs E s tx_hash 0 (outputs tx) of
        Inl e \<Rightarrow> Inl e
      | Inr s1 \<Rightarrow>
          (case (if is_coinbase tx then Inr (s1, n)
                 else restore_inputs s1 undo_info n (rev (inputs tx))) of
             Inl e \<Rightarrow> Inl e
           | Inr (s2, n') \<Rightarrow> backup_txs_loop E s2 undo_info n' rest))"

definition backup_txs :: "env \<Rightarrow> bp \<Rightarrow> (tx \<times> bytes) list \<Rightarrow> bp result" where
  "backup_txs E s txs =
     (case read_undo_info E s (height s) of
        None \<Rightarrow> Inl (ChainError NoUndoInfo, s)
      | Some undo_info \<Rightarrow>
          (case backup_txs_loop E s undo_info (int (length undo_info)) (rev txs) of
             Inl e \<Rightarrow> Inl e
           | Inr (s1, n) \<Rightarrow>
               if n \<noteq> 0 then Inl (AssertionError, s1)
               else Inr (s1\<lparr>tx_count := tx_count s1 - int (length txs)\<rparr>)))"

text \<open>One round of the loop of \<open>backup_blocks\<close>, and the loop.\<close>

definition backup_block :: "env \<Rightarrow> bp \<Rightarrow> bytes \<Rightarrow> bp result" where
  "backup_block E s raw_block =
     (let b = coin_block E raw_block (height s);
          hh = header_hash E (header b)
      in if hh \<noteq> tip s then Inl (ChainError BackupNotTip, s)
         else (case backup_txs E (s\<lparr>tip := header_prevhash E (header b)\<rparr>) (transactions b) of
                 Inl e \<Rightarrow> Inl e
               | Inr s1 \<Rightarrow>
                   (let s2 = s1\<lparr>height := height s1 - 1\<rparr>
                    in if tx_counts s2 = [] then Inl (IndexError, s2)
                       else Inr (s2\<lparr>tx_counts := butlast (tx_counts s2)\<rparr>))))"

fun backup_blocks_loop :: "env \<Rightarrow> bp \<Rightarrow> bytes list \<Rightarrow> bp result" where
  "backup_blocks_loop E s [] = Inr s"
| "backup_blocks_loop E s (raw_block # rest) =
     (case backup_block E s raw_block of
        Inl e \<Rightarrow> Inl e
      | Inr s1 \<Rightarrow> backup_blocks_loop E s1 rest)"

definition backup_blocks :: "env \<Rightarrow> bp \<Rightarrow> bytes list \<Rightarrow> bp result" where
  "backup_blocks E s raw_blocks =
     (if \<not> assert_flushed s then Inl (AssertionError, s)
      else if \<not> height s \<ge> int (length raw_blocks) then Inl (AssertionError, s)
      else (case backup_blocks_loop E s raw_blocks of
              Inl e \<Rightarrow> Inl e
            | Inr s1 \<Rightarrow> backup_flush E s1))"

definition on_dbs_opened :: "bp \<Rightarrow> bp" where
  "on_dbs_opened s =
     (let s1 = s\<lparr>fs_height := db_height s, fs_tx_count := db_tx_count s,
                 height := db_height s, tip := db_tip s, tx_count := db_tx_count s\<rparr>
      in s1\<lparr>last_flush_tx_count := tx_count s1\<rparr>)"


section \<open>Reorganisations\<close>

text \<open>
  \<open>diff_pos\<close> of \<open>reorg_hashes\<close>.  Its last line returns the length of \<open>hashes\<close>, the
  variable of the enclosing function, which holds the local hashes of the round.
\<close>

fun diff_pos_loop :: "nat \<Rightarrow> (string \<times> string) list \<Rightarrow> nat option" where
  "diff_pos_loop n [] = None"
| "diff_pos_loop n ((hash1, hash2) # rest) =
     (if hash1 \<noteq> hash2 then Some n else diff_pos_loop (n + 1) rest)"

definition diff_pos :: "bytes list \<Rightarrow> string list \<Rightarrow> string list \<Rightarrow> nat" where
  "diff_pos hashes hashes1 hashes2 =
     (case diff_pos_loop 0 (zip hashes1 hashes2) of
        Some n \<Rightarrow> n
      | None \<Rightarrow> length hashes)"

text \<open>
  The search loop of \<open>reorg_hashes\<close> for a real reorg.  The local hashes
  (\<open>fs_block_hashes\<close>), the daemon's (\<open>block_hex_hashes\<close>) and \<open>hash_to_hex_str\<close> are
  parameters.  The result is \<open>None\<close> when the loop does not end.
\<close>

partial_function (option) fork_search ::
  "(int \<Rightarrow> int \<Rightarrow> bytes list) \<Rightarrow> (int \<Rightarrow> int \<Rightarrow> string list) \<Rightarrow> (bytes \<Rightarrow> string) \<Rightarrow>
   int \<Rightarrow> int \<Rightarrow> int option" where
  "fork_search fs_block_hashes block_hex_hashes hash_to_hex_str start count =
     (if start > 0 then
        (let hashes = fs_block_hashes start count;
             hex_hashes = map hash_to_hex_str hashes;
             d_hex_hashes = block_hex_hashes start count;
             n = diff_pos hashes hex_hashes d_hex_hashes
         in if n > 0 then Some (start + int n)
            else fork_search fs_block_hashes block_hex_hashes hash_to_hex_str
                   (start - min (count * 2) start) (min (count * 2) start))
      else Some start)"

declare fork_search.simps [code]

definition reorg_hashes ::
  "(int \<Rightarrow> int \<Rightarrow> bytes list) \<Rightarrow> (int \<Rightarrow> int \<Rightarrow> string list) \<Rightarrow> (bytes \<Rightarrow> string) \<Rightarrow>
   int \<Rightarrow> int option \<Rightarrow> (int \<times> bytes list) option" where
  "reorg_hashes fs_block_hashes block_hex_hashes hash_to_hex_str h count =
     (case count of
        None \<Rightarrow>
          (case fork_search fs_block_hashes block_hex_hashes hash_to_hex_str (h - 1) 1 of
             None \<Rightarrow> None
           | Some start \<Rightarrow> Some (start, fs_block_hashes start ((h - start) + 1)))
      | Some c \<Rightarrow> Some ((h - c) + 1, fs_block_hashes ((h - c) + 1) c))"

text \<open>
  Modelled from the spec: \<open>chunks\<close> of the absent \<open>electrumx.lib.util\<close> cuts a list into
  consecutive pieces of the given size, and \<open>fs_block_hashes\<close> of the absent database
  layer yields the header hashes of the heights \<open>start, ..., start + count - 1\<close> on file.
\<close>

definition chunks :: "'a list \<Rightarrow> nat \<Rightarrow> 'a list list" where
  "chunks items size' =
     map (\<lambda>i. take size' (drop i items)) (filter (\<lambda>i. i mod size' = 0) [0..<length items])"

definition fs_block_hashes :: "env \<Rightarrow> bp \<Rightarrow> int \<Rightarrow> int \<Rightarrow> bytes list" where
  "fs_block_hashes E s start count =
     map (header_hash E) (take (nat count) (drop (nat start) (headers_file s)))"

text \<open>
  \<open>get_raw_blocks\<close> of \<open>reorg_chain\<close>: the heights it reads, and the fallback to the
  daemon (\<open>daemon_raw_blocks\<close>) when a read of the archive fails.
\<close>

definition raw_block_heights :: "int \<Rightarrow> 'a list \<Rightarrow> int list" where
  "raw_block_heights last_height hex_hashes =
     map (\<lambda>i. last_height - int i) [0..<length hex_hashes]"

definition get_raw_blocks ::
  "(string list \<Rightarrow> bytes list) \<Rightarrow> bp \<Rightarrow> int \<Rightarrow> string list \<Rightarrow> bytes list" where
  "get_raw_blocks daemon_raw_blocks s last_height hex_hashes =
     (case those (map (read_raw_block s) (raw_block_heights last_height hex_hashes)) of
        Some blocks \<Rightarrow> blocks
      | None \<Rightarrow> daemon_raw_blocks hex_hashes)"

text \<open>
  \<open>reorg_chain\<close> up to the last backup; the truncation of the header merkle cache and
  the reset of the prefetcher are not modelled.
\<close>

fun reorg_backup_loop ::
  "env \<Rightarrow> (string list \<Rightarrow> bytes list) \<Rightarrow> bp \<Rightarrow> int \<Rightarrow> string list list \<Rightarrow> bp result" where
  "reorg_backup_loop E daemon_raw_blocks s last' [] = Inr s"
| "reorg_backup_loop E daemon_raw_blocks s last' (hex_hashes # rest) =
     (let raw_blocks = get_raw_blocks daemon_raw_blocks s last' hex_hashes
      in case backup_blocks E s raw_blocks of
           Inl e \<Rightarrow> Inl e
         | Inr s' \<Rightarrow>
             reorg_backup_loop E daemon_raw_blocks s' (last' - int (length raw_blocks)) rest)"

definition reorg_chain ::
  "env \<Rightarrow> (int \<Rightarrow> int \<Rightarrow> string list) \<Rightarrow> (bytes \<Rightarrow> string) \<Rightarrow> (string list \<Rightarrow> bytes list) \<Rightarrow>
   bp \<Rightarrow> int option \<Rightarrow> bp result option" where
  "reorg_chain E block_hex_hashes hash_to_hex_str daemon_raw_blocks s count =
     (case flush E s True of
        Inl e \<Rightarrow> Some (Inl e)
      | Inr s1 \<Rightarrow>
          (case reorg_hashes (fs_block_hashes E s1) block_hex_hashes hash_to_hex_str
                  (height s1) count of
             None \<Rightarrow> None
           | Some (start, hashes) \<Rightarrow>
               (let hex = map hash_to_hex_str (rev hashes);
                    last' = (case count of Some c \<Rightarrow> start + c - 1 | None \<Rightarrow> start)
                in Some (reorg_backup_loop E daemon_raw_blocks s1 last' (chunks hex 50)))))"


section \<open>Specification-level definitions and example states\<close>

text \<open>
  The vocabulary of the specification of \<open>spend\<close>: the amount in the companion \<open>u\<close> row
  of an \<open>h\<close> row, the full hash that the trailing ordinal of an \<open>h\<close> key maps back to,
  and the result of spending a row.
\<close>

definition companion_amount :: "bp \<Rightarrow> bytes \<Rightarrow> bytes \<Rightarrow> bytes option" where
  "companion_amount s hdb_key hashX =
     (case db_get (utxo_db s) (117 # hashX @ slice_from hdb_key (- 6)) of
        None \<Rightarrow> None
      | Some a \<Rightarrow> if a \<noteq> [] then Some a else None)"

definition ordinal_hash :: "bp \<Rightarrow> bytes \<Rightarrow> bytes option" where
  "ordinal_hash s hdb_key =
     (case unpack_I (slice_from hdb_key (- 4)) of
        None \<Rightarrow> None
      | Some tx_num \<Rightarrow> fst (fs_tx_hash s tx_num))"

definition spend_result :: "bp \<Rightarrow> bytes \<Rightarrow> bytes \<Rightarrow> bytes \<Rightarrow> (bytes \<times> bp) result" where
  "spend_result s hdb_key hashX amount =
     Inr (hashX @ slice_from hdb_key (- 4) @ amount,
          s\<lparr>db_deletes := db_deletes s @ [hdb_key, 117 # hashX @ slice_from hdb_key (- 6)]\<rparr>)"

text \<open>
  The specification's description of the store path of \<open>spend\<close>: if exactly one
  candidate, use it; if several, select those whose ordinal maps back to the full hash;
  read the companion \<open>u\<close> entry; fail with a missing UTXO if nothing matches.
\<close>

definition spend_spec :: "bp \<Rightarrow> bytes \<Rightarrow> bytes \<Rightarrow> (bytes \<times> bp) result" where
  "spend_spec s tx_hash idx_packed =
     (let candidates = db_iterator (utxo_db s) (104 # take 4 tx_hash @ idx_packed);
          selected = (if length candidates = 1 then candidates
                      else filter (\<lambda>(k, hx). ordinal_hash s k = Some tx_hash) candidates)
      in case filter (\<lambda>(k, hx). companion_amount s k hx \<noteq> None) selected of
           [] \<Rightarrow> Inl (ChainError UtxoNotFound, s)
         | (k, hx) # _ \<Rightarrow> spend_result s k hx (the (companion_amount s k hx)))"

text \<open>The value lengths of the two tables.\<close>

definition utxo_rows_well_formed :: "kv \<Rightarrow> bool" where
  "utxo_rows_well_formed db =
     (\<forall>(k, v) \<in> set db. (prefix [104] k \<longrightarrow> length v = HASHX_LEN) \<and>
                        (prefix [117] k \<longrightarrow> length v = 8))"

text \<open>
  A UTXO \<open>(tx_hash, idx)\<close> is stored when the cache has its key or the store has an
  \<open>h\<close> row under its prefix whose ordinal maps back to \<open>tx_hash\<close>, with its \<open>u\<close> row.
\<close>

definition raises_missing_utxo :: "(bytes \<times> bp) result \<Rightarrow> bool" where
  "raises_missing_utxo r = (case r of Inl (ChainError UtxoNotFound, _) \<Rightarrow> True | _ \<Rightarrow> False)"

definition utxo_stored :: "bp \<Rightarrow> bytes \<Rightarrow> bytes \<Rightarrow> bool" where
  "utxo_stored s tx_hash idx_packed =
     (map_of (utxo_cache s) (tx_hash @ idx_packed) \<noteq> None \<or>
      (\<exists>(k, hx) \<in> set (db_iterator (utxo_db s) (104 # take 4 tx_hash @ idx_packed)).
         ordinal_hash s k = Some tx_hash \<and>
         db_get (utxo_db s) (117 # hx @ slice_from k (- 6)) \<noteq> None))"

text \<open>
  When the loop of \<open>spend_utxo\<close> passes over a candidate and goes on to the next one.
  With one candidate: its companion \<open>u\<close> entry is missing or empty.  With two or more:
  its ordinal is on file (\<open>fs_tx_hash\<close> yields a hash; otherwise the code fails its
  assertion and the loop ends there), and that hash is not \<open>tx_hash\<close> or the companion
  \<open>u\<close> entry is missing or empty.
\<close>

definition candidate_rejected :: "bp \<Rightarrow> bytes \<Rightarrow> nat \<Rightarrow> bytes \<Rightarrow> bytes \<Rightarrow> bool" where
  "candidate_rejected s tx_hash n hdb_key hashX =
     (if 1 < n
      then (case ordinal_hash s hdb_key of
              None \<Rightarrow> False
            | Some hash \<Rightarrow> hash \<noteq> tx_hash \<or> companion_amount s hdb_key hashX = None)
      else companion_amount s hdb_key hashX = None)"

text \<open>Example states.\<close>

definition empty_bp :: bp where
  "empty_bp = \<lparr>height = - 1, tip = [], tx_count = 0, tx_counts = [],
     fs_height = - 1, fs_tx_count = 0, db_height = - 1, db_tx_count = 0, db_tip = [],
     last_flush_tx_count = 0, utxo_flush_count = 0, headers = [], tx_hashes = [],
     undo_infos = [], utxo_cache = [], db_deletes = [], touched = {}, utxo_db = [],
     hist = \<lparr>unflushed = [], flush_count = 0\<rparr>, hashes_file = [], headers_file = [],
     raw_blocks_archive = [], caught_up = False\<rparr>"

definition hash_a :: bytes where "hash_a = replicate 32 1"

definition hash_b :: bytes where "hash_b = replicate 4 1 @ replicate 28 2"

definition hashX_a :: bytes where "hashX_a = replicate 11 7"

definition hashX_b :: bytes where "hashX_b = replicate 11 8"

definition amount_a :: bytes where "amount_a = 5 # replicate 7 0"

definition amount_b :: bytes where "amount_b = 6 # replicate 7 0"

text \<open>One stored UTXO: output 0 of transaction 0, whose hash is \<open>hash_a\<close>.\<close>

definition one_utxo :: bp where
  "one_utxo = empty_bp\<lparr>height := 0, tx_count := 1, tx_counts := [1], fs_height := 0,
     fs_tx_count := 1, db_height := 0, db_tx_count := 1, hashes_file := hash_a,
     utxo_db := [(104 # replicate 4 1 @ [0, 0] @ [0, 0, 0, 0], hashX_a),
                 (117 # hashX_a @ [0, 0] @ [0, 0, 0, 0], amount_a)]\<rparr>"

text \<open>Two stored UTXOs whose transaction hashes share their first four bytes.\<close>

definition two_utxos :: bp where
  "two_utxos = empty_bp\<lparr>height := 0, tx_count := 2, tx_counts := [2], fs_height := 0,
     fs_tx_count := 2, db_height := 0, db_tx_count := 2, hashes_file := hash_a @ hash_b,
     utxo_db := [(104 # replicate 4 1 @ [0, 0] @ [0, 0, 0, 0], hashX_a),
                 (104 # replicate 4 1 @ [0, 0] @ [1, 0, 0, 0], hashX_b),
                 (117 # hashX_a @ [0, 0] @ [0, 0, 0, 0], amount_a),
                 (117 # hashX_b @ [0, 0] @ [1, 0, 0, 0], amount_b)]\<rparr>"

definition hash_c :: bytes where "hash_c = replicate 4 1 @ replicate 28 3"

text \<open>
  A step that touches only the UTXO cache, the pending deletes and the touched set leaves
  the state the same once these three are erased.
\<close>

definition erase_utxo :: "bp \<Rightarrow> bp" where
  "erase_utxo s = s\<lparr>utxo_cache := [], db_deletes := [], touched := {}\<rparr>"

definition utxo_frame :: "bp \<Rightarrow> bp \<Rightarrow> bool" where
  "utxo_frame s s' = (erase_utxo s' = erase_utxo s)"

text \<open>
  An example chain: a coin whose headers are two bytes (previous hash, own hash), a
  genesis state holding the UTXO of \<open>one_utxo\<close>, and a block at height 1 with a
  coinbase and a transaction that spends that UTXO.
\<close>

definition hash_d :: bytes where "hash_d = replicate 32 4"

definition hash_e :: bytes where "hash_e = replicate 32 5"

definition demo_coinbase :: tx where
  "demo_coinbase = \<lparr>is_coinbase = True,
     inputs = [\<lparr>prev_hash = replicate 32 0, prev_idx = 4294967295\<rparr>],
     outputs = [\<lparr>out_value = 50, pk_script = [8]\<rparr>]\<rparr>"

definition demo_spend :: tx where
  "demo_spend = \<lparr>is_coinbase = False,
     inputs = [\<lparr>prev_hash = hash_a, prev_idx = 0\<rparr>],
     outputs = [\<lparr>out_value = 5, pk_script = [9]\<rparr>, \<lparr>out_value = 0, pk_script = []\<rparr>]\<rparr>"

definition demo_block :: block where
  "demo_block = \<lparr>raw = [1, 2, 99], header = [1, 2],
     transactions = [(demo_coinbase, hash_d), (demo_spend, hash_e)]\<rparr>"

definition demo_env :: env where
  "demo_env = \<lparr>
     coin_block = (\<lambda>raw_block h. if raw_block = [1, 2, 99] then demo_block
                     else \<lparr>raw = raw_block, header = take 2 raw_block, transactions = []\<rparr>),
     header_hash = (\<lambda>hdr. drop 1 hdr),
     header_prevhash = (\<lambda>hdr. take 1 hdr),
     hashX_from_script = (\<lambda>scr. if scr = [] then None else Some (replicate 11 (hd scr))),
     cache_MB = 100,
     daemon_cached_height = 1,
     min_undo_height = (\<lambda>d. max 0 (d - 199)),
     undo_key = (\<lambda>h. 85 # le_bytes 4 h),
     state_key = [115],
     encode_state = (\<lambda>s. le_bytes 4 (db_height s) @ le_bytes 4 (db_tx_count s) @ db_tip s),
     unflushed_memsize = (\<lambda>h. 180 * int (length (unflushed h)))\<rparr>"

definition demo_genesis :: bp where
  "demo_genesis = one_utxo\<lparr>tip := [1], db_tip := [1], headers_file := [[0, 1]],
      last_flush_tx_count := 1, caught_up := True\<rparr>"

definition demo_advanced :: bp where
  "demo_advanced = projr (advance_blocks demo_env False demo_genesis [demo_block])"

definition demo_unflushed :: bp where
  "demo_unflushed =
     projr (advance_blocks demo_env False (demo_genesis\<lparr>caught_up := False\<rparr>) [demo_block])"

text \<open>
  The vocabulary of the cache-size check: the estimated bytes of the UTXO side and of the
  history side, the policy as the specification words it (a full flush when the UTXO
  bytes exceed 80% of the budget, a history flush when the history bytes exceed 20%),
  and the call of \<open>flush\<close> that the code makes.
\<close>

definition utxo_bytes :: "bp \<Rightarrow> int" where
  "utxo_bytes s = int (length (db_deletes s)) * 57 + int (length (utxo_cache s)) * 205"

definition hist_bytes :: "env \<Rightarrow> bp \<Rightarrow> int" where
  "hist_bytes E s =
     unflushed_memsize E (hist s) +
     ((tx_count s - fs_tx_count s) * 32 + (height s - fs_height s) * 42)"

definition flush_policy_spec :: "env \<Rightarrow> bp \<Rightarrow> bool option" where
  "flush_policy_spec E s =
     (if 100 * utxo_bytes s > 80 * (cache_MB E * 1000000) then Some True
      else if 100 * hist_bytes E s > 20 * (cache_MB E * 1000000) then Some False
      else None)"

definition flush_triggered :: "env \<Rightarrow> bp \<Rightarrow> bool option" where
  "flush_triggered E s =
     (if utxo_bytes s div 1000000 + hist_bytes E s div 1000000 \<ge> cache_MB E \<or>
         hist_bytes E s div 1000000 \<ge> cache_MB E div 5
      then Some (utxo_bytes s div 1000000 \<ge> cache_MB E * 4 div 5)
      else None)"

definition run_flush :: "env \<Rightarrow> bp \<Rightarrow> bool option \<Rightarrow> bp result" where
  "run_flush E s call = (case call of None \<Rightarrow> Inr s | Some b \<Rightarrow> flush E s b)"

text \<open>A state with 20000 cached UTXOs, and a budget of 5 MB.\<close>

definition big_cache :: bp where
  "big_cache = demo_unflushed\<lparr>utxo_cache :=
     map (\<lambda>i. (le_bytes 34 (int i), replicate 23 0)) [0..<20000]\<rparr>"

definition small_env :: env where
  "small_env = demo_env\<lparr>cache_MB := 5\<rparr>"

text \<open>The shadow copies of the chain state: ordered, and equal.\<close>

definition shadow_ordered :: "bp \<Rightarrow> bool" where
  "shadow_ordered s =
     (db_height s \<le> fs_height s \<and> fs_height s \<le> height s \<and>
      db_tx_count s \<le> fs_tx_count s \<and> fs_tx_count s \<le> tx_count s)"

definition shadow_equal :: "bp \<Rightarrow> bool" where
  "shadow_equal s =
     (db_height s = fs_height s \<and> fs_height s = height s \<and>
      db_tx_count s = fs_tx_count s \<and> fs_tx_count s = tx_count s \<and> db_tip s = tip s)"

definition shadow_inv :: "bp \<Rightarrow> bool" where
  "shadow_inv s = (shadow_ordered s \<and> (height s = db_height s \<longrightarrow> tip s = db_tip s))"

text \<open>An environment whose history estimate is two million bytes per unflushed batch.\<close>

definition hist_env :: env where
  "hist_env = demo_env\<lparr>cache_MB := 5,
     unflushed_memsize := (\<lambda>h. 2000000 * int (length (unflushed h)))\<rparr>"

text \<open>
  The fork-point search as the specification words it.  \<open>agree_len\<close> is the number of
  leading positions where two hash lists agree.  From \<open>(start, count)\<close> the search ends
  at \<open>start\<close> when \<open>start\<close> has reached 0; it ends at \<open>start + n\<close> when the local and the
  daemon's hashes of the range first disagree at an index \<open>n > 0\<close> (or agree throughout,
  with \<open>n\<close> the number of local hashes); otherwise it doubles \<open>count\<close>, capped at
  \<open>start\<close>, lowers \<open>start\<close> by it and repeats.
\<close>

definition agree_len :: "string list \<Rightarrow> string list \<Rightarrow> nat" where
  "agree_len xs ys = length (takeWhile (\<lambda>(x, y). x = y) (zip xs ys))"

definition first_disagreement :: "string list \<Rightarrow> string list \<Rightarrow> nat" where
  "first_disagreement xs ys =
     (if agree_len xs ys < min (length xs) (length ys) then agree_len xs ys else length xs)"

inductive fork_point ::
  "(int \<Rightarrow> int \<Rightarrow> bytes list) \<Rightarrow> (int \<Rightarrow> int \<Rightarrow> string list) \<Rightarrow> (bytes \<Rightarrow> string) \<Rightarrow>
   int \<Rightarrow> int \<Rightarrow> int \<Rightarrow> bool"
  for F :: "int \<Rightarrow> int \<Rightarrow> bytes list" and D :: "int \<Rightarrow> int \<Rightarrow> string list"
    and X :: "bytes \<Rightarrow> string" where
  at_genesis: "start \<le> 0 \<Longrightarrow> fork_point F D X start count start"
| found: "0 < start \<Longrightarrow> n = first_disagreement (map X (F start count)) (D start count) \<Longrightarrow>
          0 < n \<Longrightarrow> fork_point F D X start count (start + int n)"
| again: "0 < start \<Longrightarrow> first_disagreement (map X (F start count)) (D start count) = 0 \<Longrightarrow>
          fork_point F D X (start - min (count * 2) start) (min (count * 2) start) r \<Longrightarrow>
          fork_point F D X start count r"

text \<open>
  An example chain of five headers; the daemon's chain differs from height 3 on.  The
  raw-block archive holds the blocks of heights 1 to 4, none of which has transactions
  beyond the first, and the store holds empty undo records for heights 3 and 4.
\<close>

definition demo_hex :: "bytes \<Rightarrow> string" where
  "demo_hex b = map (\<lambda>w. char_of (unat w)) b"

definition reorg_state :: bp where
  "reorg_state = empty_bp\<lparr>height := 4, tip := [5], tx_count := 1,
     tx_counts := [1, 1, 1, 1, 1], fs_height := 4, fs_tx_count := 1, db_height := 4,
     db_tx_count := 1, db_tip := [5],
     utxo_db := [(85 # le_bytes 4 3, []), (85 # le_bytes 4 4, [])],
     headers_file := [[0, 1], [1, 2], [2, 3], [3, 4], [4, 5]],
     raw_blocks_archive := [(1, [1, 2, 0]), (2, [2, 3, 0]), (3, [3, 4, 0]), (4, [4, 5, 0])]\<rparr>"

definition demo_daemon_hashes :: "int \<Rightarrow> int \<Rightarrow> string list" where
  "demo_daemon_hashes start count =
     map (\<lambda>h. if h < 3 then demo_hex [word_of_int (h + 1)] else ''other'')
       [start..start + count - 1]"

definition demo_daemon_blocks :: "string list \<Rightarrow> bytes list" where
  "demo_daemon_blocks hex_hashes =
     map (\<lambda>x. if x = demo_hex [5] then [4, 5, 0] else if x = demo_hex [4] then [3, 4, 0]
               else []) hex_hashes"

definition demo_local :: "int \<Rightarrow> int \<Rightarrow> bytes list" where
  "demo_local = fs_block_hashes demo_env reorg_state"


section \<open>The UTXO set represented by a state\<close>

text \<open>
  The UTXO set is a map from the 34-byte key \<open>tx_hash ++ idx\<close> to the 23-byte value
  \<open>fingerprint ++ tx_ordinal ++ amount\<close>, as in the cache.  \<open>hkey_of\<close> and \<open>ukey_of\<close> are
  the keys of the two rows of an entry in the store, \<open>ord_of\<close> the ordinal in a value.
\<close>

type_synonym utxos = "bytes \<rightharpoonup> bytes"

definition ord_of :: "bytes \<Rightarrow> int" where
  "ord_of v = le_int (take 4 (drop 11 v))"

definition hkey_of :: "bytes \<Rightarrow> bytes \<Rightarrow> bytes" where
  "hkey_of k v = 104 # take 4 k @ drop 32 k @ take 4 (drop 11 v)"

definition ukey_of :: "bytes \<Rightarrow> bytes \<Rightarrow> bytes" where
  "ukey_of k v = 117 # take 11 v @ drop 32 k @ take 4 (drop 11 v)"

text \<open>An entry is live in the store when it is in the set and not in the cache.\<close>

definition live :: "utxos \<Rightarrow> bp \<Rightarrow> bytes \<Rightarrow> bool" where
  "live U s k = (U k \<noteq> None \<and> map_of (utxo_cache s) k = None)"

text \<open>
  A state represents the UTXO set \<open>U\<close>, with \<open>H\<close> mapping ordinals to transaction
  hashes: the entries are well formed and their ordinals map back to their hashes; the
  cache holds entries of \<open>U\<close>; every entry outside the cache has its two rows in the
  store, not marked for deletion; every \<open>h\<close> row of the store is the row of such an
  entry, or is marked for deletion and belongs to no such entry; and likewise for the
  \<open>u\<close> rows.
\<close>

definition utxo_inv :: "(int \<Rightarrow> bytes option) \<Rightarrow> bp \<Rightarrow> utxos \<Rightarrow> bool" where
  "utxo_inv H s U =
     (distinct (map fst (utxo_cache s)) \<and>
      (\<forall>k v. U k = Some v \<longrightarrow>
         length k = 34 \<and> length v = 23 \<and> H (ord_of v) = Some (take 32 k)) \<and>
      (\<forall>k v. map_of (utxo_cache s) k = Some v \<longrightarrow> U k = Some v) \<and>
      (\<forall>k v. U k = Some v \<and> map_of (utxo_cache s) k = None \<longrightarrow>
         map_of (utxo_db s) (hkey_of k v) = Some (take 11 v) \<and>
         map_of (utxo_db s) (ukey_of k v) = Some (drop 15 v) \<and>
         hkey_of k v \<notin> set (db_deletes s) \<and> ukey_of k v \<notin> set (db_deletes s)) \<and>
      (\<forall>hk hx. map_of (utxo_db s) hk = Some hx \<and> prefix [104] hk \<longrightarrow>
         length hk = 11 \<and> ordinal_hash s hk = H (le_int (drop 7 hk)) \<and>
         ((\<exists>k v. U k = Some v \<and> map_of (utxo_cache s) k = None \<and> hk = hkey_of k v) \<or>
          (hk \<in> set (db_deletes s) \<and>
           (\<exists>t. H (le_int (drop 7 hk)) = Some t \<and> \<not> live U s (t @ take 2 (drop 5 hk)))))) \<and>
      (\<forall>uk a. map_of (utxo_db s) uk = Some a \<and> prefix [117] uk \<longrightarrow>
         (\<exists>k v. U k = Some v \<and> map_of (utxo_cache s) k = None \<and> uk = ukey_of k v) \<or>
         uk \<in> set (db_deletes s)))"

text \<open>
  A flushed state is consistent when it represents some UTXO set with the ordinals read
  from its file of transaction hashes, all of them below \<open>tx_count\<close>.
\<close>

definition store_ok :: "bp \<Rightarrow> utxos \<Rightarrow> bool" where
  "store_ok s U =
     (utxo_inv (\<lambda>n. fst (fs_tx_hash s n)) s U \<and>
      (\<forall>k v. U k = Some v \<longrightarrow> 0 \<le> ord_of v \<and> ord_of v < tx_count s) \<and>
      0 \<le> tx_count s \<and> 32 * nat (tx_count s) \<le> length (hashes_file s))"

text \<open>
  Validity of transactions and blocks over a UTXO set.  The inputs of a transaction that
  is not a coinbase spend distinct entries of the set; its spendable outputs have an
  11-byte fingerprint, an index and an amount that can be packed, and keys that are new
  (\<open>outs_ok\<close> says so for the outputs from an index on).
\<close>

definition in_key :: "txin \<Rightarrow> bytes" where
  "in_key i = prev_hash i @ the (pack_H (prev_idx i))"

definition valid_inputs :: "utxos \<Rightarrow> txin list \<Rightarrow> bool" where
  "valid_inputs U ins =
     (distinct (map in_key ins) \<and>
      (\<forall>i \<in> set ins. length (prev_hash i) = 32 \<and> pack_H (prev_idx i) \<noteq> None \<and>
                       U (in_key i) \<noteq> None))"

definition spendable :: "env \<Rightarrow> txout \<Rightarrow> bool" where
  "spendable E out =
     (hashX_from_script E (pk_script out) \<noteq> None \<and>
      hashX_from_script E (pk_script out) \<noteq> Some [])"

fun out_entries :: "env \<Rightarrow> bytes \<Rightarrow> int \<Rightarrow> nat \<Rightarrow> txout list \<Rightarrow> (bytes \<times> bytes) list" where
  "out_entries E tx_hash n idx [] = []"
| "out_entries E tx_hash n idx (out # rest) =
     (if spendable E out
      then [(tx_hash @ the (pack_H (int idx)),
             the (hashX_from_script E (pk_script out)) @ the (pack_I n) @
             the (pack_Q (out_value out)))]
      else []) @ out_entries E tx_hash n (idx + 1) rest"

definition outs_ok :: "env \<Rightarrow> utxos \<Rightarrow> bytes \<Rightarrow> nat \<Rightarrow> txout list \<Rightarrow> bool" where
  "outs_ok E U th idx outs =
     (length th = 32 \<and> idx + length outs \<le> 65536 \<and>
      (\<forall>out \<in> set outs. spendable E out \<longrightarrow>
         length (the (hashX_from_script E (pk_script out))) = HASHX_LEN \<and>
         0 \<le> out_value out \<and> out_value out < 2 ^ 64) \<and>
      (\<forall>j < length outs. U (th @ the (pack_H (int (idx + j)))) = None))"

definition valid_outputs :: "env \<Rightarrow> utxos \<Rightarrow> bytes \<Rightarrow> txout list \<Rightarrow> bool" where
  "valid_outputs E U tx_hash outs = outs_ok E U tx_hash 0 outs"

definition tx_in_keys :: "tx \<Rightarrow> bytes list" where
  "tx_in_keys t = (if is_coinbase t then [] else map in_key (inputs t))"

definition abs_tx :: "env \<Rightarrow> utxos \<Rightarrow> int \<Rightarrow> tx \<times> bytes \<Rightarrow> utxos" where
  "abs_tx E U n th =
     (U |` (- set (tx_in_keys (fst th)))) ++ map_of (out_entries E (snd th) n 0 (outputs (fst th)))"

definition undo_tx :: "utxos \<Rightarrow> tx \<Rightarrow> bytes list" where
  "undo_tx U t = map (\<lambda>k. the (U k)) (tx_in_keys t)"

definition valid_tx :: "env \<Rightarrow> utxos \<Rightarrow> int \<Rightarrow> tx \<times> bytes \<Rightarrow> bool" where
  "valid_tx E U n th =
     (0 \<le> n \<and> n < 2 ^ 32 \<and>
      (\<not> is_coinbase (fst th) \<longrightarrow> valid_inputs U (inputs (fst th))) \<and>
      valid_outputs E (U |` (- set (tx_in_keys (fst th)))) (snd th) (outputs (fst th)))"

fun abs_txs :: "env \<Rightarrow> utxos \<Rightarrow> int \<Rightarrow> (tx \<times> bytes) list \<Rightarrow> utxos" where
  "abs_txs E U n [] = U"
| "abs_txs E U n (th # rest) = abs_txs E (abs_tx E U n th) (n + 1) rest"

fun valid_txs :: "env \<Rightarrow> utxos \<Rightarrow> int \<Rightarrow> (tx \<times> bytes) list \<Rightarrow> bool" where
  "valid_txs E U n [] = True"
| "valid_txs E U n (th # rest) = (valid_tx E U n th \<and> valid_txs E (abs_tx E U n th) (n + 1) rest)"

fun undo_txs :: "env \<Rightarrow> utxos \<Rightarrow> int \<Rightarrow> (tx \<times> bytes) list \<Rightarrow> bytes list" where
  "undo_txs E U n [] = []"
| "undo_txs E U n (th # rest) = undo_tx U (fst th) @ undo_txs E (abs_tx E U n th) (n + 1) rest"

fun abs_blocks :: "env \<Rightarrow> utxos \<Rightarrow> int \<Rightarrow> block list \<Rightarrow> utxos" where
  "abs_blocks E U n [] = U"
| "abs_blocks E U n (b # rest) =
     abs_blocks E (abs_txs E U n (transactions b)) (n + int (length (transactions b))) rest"

fun valid_blocks :: "env \<Rightarrow> utxos \<Rightarrow> int \<Rightarrow> block list \<Rightarrow> bool" where
  "valid_blocks E U n [] = True"
| "valid_blocks E U n (b # rest) =
     (valid_txs E U n (transactions b) \<and>
      valid_blocks E (abs_txs E U n (transactions b)) (n + int (length (transactions b))) rest)"

text \<open>
  The blocks connect onto a tip, and the coin decodes the raw bytes of each block, at its
  height, to the block.
\<close>

fun connects :: "env \<Rightarrow> bytes \<Rightarrow> block list \<Rightarrow> bool" where
  "connects E t [] = True"
| "connects E t (b # rest) =
     (header_prevhash E (header b) = t \<and> connects E (header_hash E (header b)) rest)"

fun decodes :: "env \<Rightarrow> int \<Rightarrow> block list \<Rightarrow> bool" where
  "decodes E h [] = True"
| "decodes E h (b # rest) = (coin_block E (raw b) (h + 1) = b \<and> decodes E (h + 1) rest)"

text \<open>
  The keys of the undo records and of the chain state stay clear of the two UTXO tables
  and of each other.
\<close>

definition env_ok :: "env \<Rightarrow> bool" where
  "env_ok E =
     (inj (undo_key E) \<and>
      (\<forall>h. \<not> prefix [104] (undo_key E h) \<and> \<not> prefix [117] (undo_key E h) \<and>
           undo_key E h \<noteq> state_key E) \<and>
      \<not> prefix [104] (state_key E) \<and> \<not> prefix [117] (state_key E))"

text \<open>The rows of the two UTXO tables.\<close>

definition utxo_rows :: "kv \<Rightarrow> bytes \<Rightarrow> bytes option" where
  "utxo_rows db key = (if prefix [104] key \<or> prefix [117] key then db_get db key else None)"

text \<open>
  What advancing a list of blocks appends to the state: the transactions, the running
  transaction counts and the undo records with their heights.
\<close>

definition all_txs :: "block list \<Rightarrow> (tx \<times> bytes) list" where
  "all_txs blocks = concat (map transactions blocks)"

fun counts :: "int \<Rightarrow> block list \<Rightarrow> int list" where
  "counts n [] = []"
| "counts n (b # rest) =
     (n + int (length (transactions b))) # counts (n + int (length (transactions b))) rest"

fun undo_list :: "env \<Rightarrow> utxos \<Rightarrow> int \<Rightarrow> int \<Rightarrow> block list \<Rightarrow> (bytes list \<times> int) list" where
  "undo_list E U n h [] = []"
| "undo_list E U n h (b # rest) =
     (undo_txs E U n (transactions b), h + 1) #
     undo_list E (abs_txs E U n (transactions b)) (n + int (length (transactions b))) (h + 1) rest"

definition block_hashes :: "block \<Rightarrow> bytes" where
  "block_hashes b = concat (map snd (transactions b))"

text \<open>Reading the hash of an ordinal from a file of transaction hashes.\<close>

definition read_hash :: "bytes \<Rightarrow> int \<Rightarrow> bytes option" where
  "read_hash file n =
     (if 0 \<le> n \<and> 32 * nat n + 32 \<le> length file
      then Some (take 32 (drop (32 * nat n) file)) else None)"

definition hashes_match :: "(int \<Rightarrow> bytes option) \<Rightarrow> int \<Rightarrow> (tx \<times> bytes) list \<Rightarrow> bool" where
  "hashes_match H n txs = (\<forall>j < length txs. H (n + int j) = Some (snd (txs ! j)))"

definition entries_ok :: "(int \<Rightarrow> bytes option) \<Rightarrow> utxos \<Rightarrow> bool" where
  "entries_ok H U =
     (\<forall>k v. U k = Some v \<longrightarrow> length k = 34 \<and> length v = 23 \<and> H (ord_of v) = Some (take 32 k))"

text \<open>
  The frames of advancing and of backing up: what a step leaves alone, beyond the UTXO
  cache, the pending deletes and the touched set.
\<close>

definition erase_adv :: "bp \<Rightarrow> bp" where
  "erase_adv s =
     erase_utxo (s\<lparr>tx_hashes := [], tx_count := 0, tx_counts := [],
                  hist := \<lparr>unflushed = [], flush_count = 0\<rparr>,
                  undo_infos := [], raw_blocks_archive := []\<rparr>)"

definition adv_frame :: "bp \<Rightarrow> bp \<Rightarrow> bool" where
  "adv_frame s s' = (erase_adv s' = erase_adv s)"

definition erase_bk :: "bp \<Rightarrow> bp" where
  "erase_bk s = erase_utxo (s\<lparr>tip := [], height := 0, tx_count := 0, tx_counts := []\<rparr>)"

definition bk_frame :: "bp \<Rightarrow> bp \<Rightarrow> bool" where
  "bk_frame s s' = (erase_bk s' = erase_bk s)"


section \<open>Properties of spending\<close>

lemma scan_Cons:
  "scan_candidates s t n ((k, hx) # rest) =
     (if 1 < n \<and> ordinal_hash s k = None
      then Inl (if unpack_I (slice_from k (- 4)) = None then StructError else AssertionError, s)
      else if 1 < n \<and> ordinal_hash s k \<noteq> Some t then scan_candidates s t n rest
      else (case companion_amount s k hx of
              None \<Rightarrow> scan_candidates s t n rest
            | Some a \<Rightarrow> spend_result s k hx a))"
  by (auto simp: companion_amount_def spend_result_def ordinal_hash_def Let_def
           split: option.splits)

lemma scan_single:
  "n \<le> 1 \<Longrightarrow>
   scan_candidates s t n cs =
     (case filter (\<lambda>(k, hx). companion_amount s k hx \<noteq> None) cs of
        [] \<Rightarrow> Inl (ChainError UtxoNotFound, s)
      | (k, hx) # _ \<Rightarrow> spend_result s k hx (the (companion_amount s k hx)))"
proof (induction cs)
  case Nil
  then show ?case by simp
next
  case (Cons c cs)
  obtain k hx where c: "c = (k, hx)" by (cases c)
  show ?case using Cons unfolding c scan_Cons
    by (cases "companion_amount s k hx") auto
qed

lemma scan_multi:
  "1 < n \<Longrightarrow> \<forall>(k, hx) \<in> set cs. ordinal_hash s k \<noteq> None \<Longrightarrow>
   scan_candidates s t n cs =
     (case filter (\<lambda>(k, hx). companion_amount s k hx \<noteq> None)
             (filter (\<lambda>(k, hx). ordinal_hash s k = Some t) cs) of
        [] \<Rightarrow> Inl (ChainError UtxoNotFound, s)
      | (k, hx) # _ \<Rightarrow> spend_result s k hx (the (companion_amount s k hx)))"
proof (induction cs)
  case Nil
  then show ?case by simp
next
  case (Cons c cs)
  obtain k hx where c: "c = (k, hx)" by (cases c)
  show ?case using Cons unfolding c scan_Cons
    by (cases "companion_amount s k hx") auto
qed

lemma cache_miss_state:
  "map_of (utxo_cache s) k = None \<Longrightarrow> s\<lparr>utxo_cache := AList.delete k (utxo_cache s)\<rparr> = s"
  by (simp add: map_of_eq_None_iff)

lemma spend_utxo_miss:
  assumes "pack_H tx_idx = Some idx_packed"
      and "map_of (utxo_cache s) (tx_hash @ idx_packed) = None"
  shows "spend_utxo s tx_hash tx_idx =
     (let cs = db_iterator (utxo_db s) (104 # take 4 tx_hash @ idx_packed)
      in scan_candidates s tx_hash (length cs) cs)"
  using assms by (simp add: spend_utxo_def cache_miss_state Let_def)

lemma set_db_iterator:
  "set (db_iterator db p) = {(k, v). map_of db k = Some v \<and> prefix p k}"
  by (auto simp: db_iterator_def AList.graph_map_of [symmetric] Map.graph_def)

lemma ordinal_hash_cache [simp]:
  "ordinal_hash (s\<lparr>utxo_cache := c\<rparr>) k = ordinal_hash s k"
  by (simp add: ordinal_hash_def fs_tx_hash_def split: option.splits)

lemma companion_amount_cache [simp]:
  "companion_amount (s\<lparr>utxo_cache := c\<rparr>) k hx = companion_amount s k hx"
  by (simp add: companion_amount_def)

lemma slice_from_neg:
  "0 < n \<Longrightarrow> slice_from xs (- int n) = drop (length xs - n) xs"
proof -
  assume "0 < n"
  have "nat (max (- int n + int (length xs)) 0) = length xs - n" by linarith
  with \<open>0 < n\<close> show ?thesis by (simp add: slice_from_def norm_index_def)
qed

lemma length_slice_from_4: "4 \<le> length xs \<Longrightarrow> length (slice_from xs (- 4)) = 4"
  using slice_from_neg [of 4 xs] by simp

lemma length_le_bytes [simp]: "length (le_bytes k n) = k"
  by (induction k arbitrary: n) auto

lemma length_pack_H: "pack_H n = Some b \<Longrightarrow> length b = 2"
  by (auto simp: pack_H_def split: if_splits)

lemma spend_spec_cases:
  assumes "spend_spec s t ip = Inr (v, s')"
  obtains k hx a where "(k, hx) \<in> set (db_iterator (utxo_db s) (104 # take 4 t @ ip))"
    and "companion_amount s k hx = Some a"
    and "v = hx @ slice_from k (- 4) @ a"
    and "s' = s\<lparr>db_deletes := db_deletes s @ [k, 117 # hx @ slice_from k (- 6)]\<rparr>"
    and "length (db_iterator (utxo_db s) (104 # take 4 t @ ip)) \<noteq> 1 \<longrightarrow> ordinal_hash s k = Some t"
proof -
  define cs where "cs = db_iterator (utxo_db s) (104 # take 4 t @ ip)"
  define sel where
    "sel = (if length cs = 1 then cs else filter (\<lambda>(k, hx). ordinal_hash s k = Some t) cs)"
  define f where "f = filter (\<lambda>(k, hx). companion_amount s k hx \<noteq> None) sel"
  have spec: "spend_spec s t ip =
     (case f of [] \<Rightarrow> Inl (ChainError UtxoNotFound, s)
      | (k, hx) # _ \<Rightarrow> spend_result s k hx (the (companion_amount s k hx)))"
    by (simp add: spend_spec_def Let_def f_def sel_def cs_def)
  from assms obtain k hx rest where f: "f = (k, hx) # rest"
    and r: "spend_result s k hx (the (companion_amount s k hx)) = Inr (v, s')"
    unfolding spec by (auto split: list.splits)
  have "(k, hx) \<in> set f" by (simp add: f)
  then have sel: "(k, hx) \<in> set sel" and ca: "companion_amount s k hx \<noteq> None"
    by (auto simp: f_def)
  from ca obtain a where a: "companion_amount s k hx = Some a" by auto
  have "(k, hx) \<in> set cs" using sel by (auto simp: sel_def split: if_splits)
  moreover have "length cs \<noteq> 1 \<longrightarrow> ordinal_hash s k = Some t"
    using sel by (auto simp: sel_def split: if_splits)
  ultimately show thesis
    using that [of k hx a] a r by (auto simp: spend_result_def cs_def)
qed

text \<open>
  Claim C3.  On a cache miss \<open>spend_utxo\<close> does what the specification describes
  (\<open>spend_spec\<close>): it scans the \<open>h\<close> table under the prefix
  \<open>'h' ++ tx_hash[0..4] ++ idx_u16_le\<close>; with more than one candidate it keeps those
  whose trailing ordinal maps back to the full hash through \<open>fs_tx_hash\<close>; it reads the
  companion \<open>u\<close> entry, appends both keys to \<open>db_deletes\<close> and returns
  \<open>fingerprint ++ tx_ordinal ++ amount\<close>, which has 23 bytes when the rows of the store
  are well formed.  The ordinals of the scanned candidates are taken to be on file, as
  the code asserts.
\<close>

theorem spend_utxo_store_path:
  assumes "pack_H tx_idx = Some idx_packed"
    and "map_of (utxo_cache s) (tx_hash @ idx_packed) = None"
    and "\<forall>(k, hx) \<in> set (db_iterator (utxo_db s) (104 # take 4 tx_hash @ idx_packed)).
           ordinal_hash s k \<noteq> None"
  shows "spend_utxo s tx_hash tx_idx = spend_spec s tx_hash idx_packed \<and>
         (\<forall>v s'. spend_utxo s tx_hash tx_idx = Inr (v, s') \<longrightarrow>
            length tx_hash = 32 \<longrightarrow> utxo_rows_well_formed (utxo_db s) \<longrightarrow> length v = 23)"
proof -
  let ?cs = "db_iterator (utxo_db s) (104 # take 4 tx_hash @ idx_packed)"
  have eq: "spend_utxo s tx_hash tx_idx = spend_spec s tx_hash idx_packed"
  proof (cases "1 < length ?cs")
    case True
    then show ?thesis
      using assms scan_multi [of "length ?cs" ?cs s tx_hash]
      by (simp add: spend_utxo_miss spend_spec_def Let_def)
  next
    case False
    then have le: "length ?cs \<le> 1" by simp
    then have "length ?cs = 1 \<or> ?cs = []" by (cases ?cs) auto
    then show ?thesis
      using assms scan_single [OF le, of s tx_hash ?cs]
      by (auto simp: spend_utxo_miss spend_spec_def Let_def)
  qed
  have len: "length v = 23"
    if r: "spend_utxo s tx_hash tx_idx = Inr (v, s')" and t: "length tx_hash = 32"
      and wf: "utxo_rows_well_formed (utxo_db s)" for v s'
  proof -
    from r eq have "spend_spec s tx_hash idx_packed = Inr (v, s')" by simp
    then obtain k hx a where mem: "(k, hx) \<in> set ?cs"
      and ca: "companion_amount s k hx = Some a"
      and v: "v = hx @ slice_from k (- 4) @ a"
      by (rule spend_spec_cases)
    from mem have hk: "map_of (utxo_db s) k = Some hx"
      and pk: "prefix (104 # take 4 tx_hash @ idx_packed) k"
      by (auto simp: set_db_iterator)
    from pk t have "7 \<le> length k"
      using length_pack_H [OF assms(1)] by (auto simp: prefix_def)
    then have l4: "length (slice_from k (- 4)) = 4" by (simp add: length_slice_from_4)
    from pk have "prefix [104] k" by (auto simp: prefix_def)
    with hk wf have lhx: "length hx = 11"
      by (auto simp: utxo_rows_well_formed_def HASHX_LEN_def dest!: map_of_SomeD)
    from ca have "map_of (utxo_db s) (117 # hx @ slice_from k (- 6)) = Some a"
      by (auto simp: companion_amount_def db_get_def split: option.splits if_splits)
    with wf have "length a = 8"
      by (auto simp: utxo_rows_well_formed_def dest!: map_of_SomeD)
    with v l4 lhx show ?thesis by simp
  qed
  from eq len show ?thesis by blast
qed

lemma ordinal_hash_deletes [simp]:
  "ordinal_hash (s\<lparr>db_deletes := d\<rparr>) k = ordinal_hash s k"
  by (simp add: ordinal_hash_def fs_tx_hash_def split: option.splits)

lemma raises_scan_iff:
  "raises_missing_utxo (scan_candidates s t n cs) \<longleftrightarrow>
     (\<forall>(k, hx) \<in> set cs. candidate_rejected s t n k hx)"
proof (induction cs)
  case Nil
  then show ?case by (simp add: raises_missing_utxo_def)
next
  case (Cons c cs)
  obtain k hx where c: "c = (k, hx)" by (cases c)
  show ?case using Cons unfolding c scan_Cons
    by (cases "companion_amount s k hx")
       (auto simp: candidate_rejected_def raises_missing_utxo_def spend_result_def
             split: option.splits)
qed

lemma scan_rejected_prefix:
  "\<forall>(k, hx) \<in> set pre. candidate_rejected s t n k hx \<Longrightarrow>
   scan_candidates s t n (pre @ rest) = scan_candidates s t n rest"
proof (induction pre)
  case Nil
  then show ?case by simp
next
  case (Cons c pre)
  obtain k hx where c: "c = (k, hx)" by (cases c)
  from Cons.prems have r: "candidate_rejected s t n k hx"
    and p: "\<forall>(k, hx) \<in> set pre. candidate_rejected s t n k hx"
    by (simp_all add: c)
  have "scan_candidates s t n ((k, hx) # pre @ rest) = scan_candidates s t n (pre @ rest)"
    using r unfolding scan_Cons
    by (cases "companion_amount s k hx")
       (auto simp: candidate_rejected_def split: option.splits if_splits)
  with Cons.IH [OF p] show ?case by (simp add: c del: scan_candidates.simps)
qed

lemma candidate_rejected_cache [simp]:
  "candidate_rejected (s\<lparr>utxo_cache := c\<rparr>) t n k hx = candidate_rejected s t n k hx"
  by (simp add: candidate_rejected_def split: option.splits)

text \<open>
  Claim C10.  When the cache misses and the prefix scan finds exactly one candidate,
  \<open>spend_utxo\<close> uses it without comparing its full transaction hash: for an input with
  no stored UTXO whose 4-byte prefix and index collide with the one stored UTXO of another
  transaction, it returns that UTXO and marks its two keys for deletion.
\<close>

theorem spend_utxo_lone_candidate:
  assumes "pack_H tx_idx = Some idx_packed"
    and "map_of (utxo_cache s) (tx_hash @ idx_packed) = None"
    and "db_iterator (utxo_db s) (104 # take 4 tx_hash @ idx_packed) = [(hdb_key, hashX)]"
    and "db_get (utxo_db s) (117 # hashX @ slice_from hdb_key (- 6)) = Some amount"
    and "amount \<noteq> []"
    and "ordinal_hash s hdb_key = Some other_hash"
    and "other_hash \<noteq> tx_hash"
  shows "spend_utxo s tx_hash tx_idx =
           Inr (hashX @ slice_from hdb_key (- 4) @ amount,
                s\<lparr>db_deletes := db_deletes s @
                     [hdb_key, 117 # hashX @ slice_from hdb_key (- 6)]\<rparr>) \<and>
         \<not> utxo_stored s tx_hash idx_packed"
proof -
  have "companion_amount s hdb_key hashX = Some amount"
    using assms(4,5) by (simp add: companion_amount_def)
  then have "spend_utxo s tx_hash tx_idx = spend_result s hdb_key hashX amount"
    using assms(1,2,3) by (simp add: spend_utxo_miss scan_Cons del: scan_candidates.simps)
  moreover have "\<not> utxo_stored s tx_hash idx_packed"
    using assms(2,3,6,7) by (simp add: utxo_stored_def)
  ultimately show ?thesis by (simp add: spend_result_def)
qed

theorem spend_utxo_lone_candidate_witness:
  "spend_utxo one_utxo hash_b 0 =
     Inr (hashX_a @ [0, 0, 0, 0] @ amount_a,
          one_utxo\<lparr>db_deletes := [104 # replicate 4 1 @ [0, 0, 0, 0, 0, 0],
                                   117 # hashX_a @ [0, 0, 0, 0, 0, 0]]\<rparr>) \<and>
   \<not> utxo_stored one_utxo hash_b [0, 0]"
proof -
  have 1: "pack_H 0 = Some [0, 0]" by code_simp
  have 2: "map_of (utxo_cache one_utxo) (hash_b @ [0, 0]) = None" by code_simp
  have 3: "db_iterator (utxo_db one_utxo) (104 # take 4 hash_b @ [0, 0]) =
             [(104 # replicate 4 1 @ [0, 0, 0, 0, 0, 0], hashX_a)]" by code_simp
  have 4: "db_get (utxo_db one_utxo)
             (117 # hashX_a @ slice_from (104 # replicate 4 1 @ [0, 0, 0, 0, 0, 0]) (- 6)) =
             Some amount_a" by code_simp
  have 5: "amount_a \<noteq> []" by code_simp
  have 6: "ordinal_hash one_utxo (104 # replicate 4 1 @ [0, 0, 0, 0, 0, 0]) = Some hash_a"
    by code_simp
  have 7: "hash_a \<noteq> hash_b" by code_simp
  have 8: "slice_from (104 # replicate 4 1 @ [0, 0, 0, 0, 0, 0 :: 8 word]) (- 4) = [0, 0, 0, 0]"
    by code_simp
  have 9: "slice_from (104 # replicate 4 1 @ [0, 0, 0, 0, 0, 0 :: 8 word]) (- 6) = [0, 0, 0, 0, 0, 0]"
    by code_simp
  have 10: "db_deletes one_utxo = []" by code_simp
  from spend_utxo_lone_candidate [OF 1 2 3 4 5 6 7] show ?thesis
    by (simp add: 8 9 10)
qed

text \<open>
  Claim C4 as stated fails: in \<open>one_utxo\<close> no entry for \<open>(hash_b, 0)\<close> is stored, yet
  \<open>spend_utxo\<close> does not raise.
\<close>

theorem spend_utxo_missing_counterexample:
  "\<not> (raises_missing_utxo (spend_utxo one_utxo hash_b 0) \<longleftrightarrow>
      \<not> utxo_stored one_utxo hash_b [0, 0])"
  by code_simp

text \<open>
  Claim C4, amended.  \<open>spend_utxo\<close> raises the \<open>ChainError\<close> for a missing UTXO exactly
  when the index packs into 16 bits, the cache holds no non-empty value for the key and
  every candidate of the prefix scan is rejected.  A lone candidate is rejected when its
  companion \<open>u\<close> entry is missing or empty; it is never compared by full hash.  With two or
  more candidates, a candidate is rejected when its ordinal is on file and either maps to
  another hash than \<open>tx_hash\<close> or maps to \<open>tx_hash\<close> with the companion \<open>u\<close> entry
  missing or empty; a candidate whose ordinal is not on file is not rejected: reaching it
  fails the assertion of the code, which is another error than the \<open>ChainError\<close>.
\<close>

theorem spend_utxo_missing_iff:
  "(raises_missing_utxo (spend_utxo s tx_hash tx_idx) \<longleftrightarrow>
    (\<exists>idx_packed. pack_H tx_idx = Some idx_packed \<and>
       (map_of (utxo_cache s) (tx_hash @ idx_packed) = None \<or>
        map_of (utxo_cache s) (tx_hash @ idx_packed) = Some []) \<and>
       (\<forall>(k, hx) \<in> set (db_iterator (utxo_db s) (104 # take 4 tx_hash @ idx_packed)).
          candidate_rejected s tx_hash
            (length (db_iterator (utxo_db s) (104 # take 4 tx_hash @ idx_packed))) k hx))) \<and>
   (\<forall>idx_packed pre k hx post.
      pack_H tx_idx = Some idx_packed \<and>
      (map_of (utxo_cache s) (tx_hash @ idx_packed) = None \<or>
       map_of (utxo_cache s) (tx_hash @ idx_packed) = Some []) \<and>
      db_iterator (utxo_db s) (104 # take 4 tx_hash @ idx_packed) = pre @ (k, hx) # post \<and>
      1 < length (pre @ (k, hx) # post) \<and>
      (\<forall>(k', hx') \<in> set pre.
         candidate_rejected s tx_hash (length (pre @ (k, hx) # post)) k' hx') \<and>
      ordinal_hash s k = None \<longrightarrow>
      spend_utxo s tx_hash tx_idx =
        Inl (if unpack_I (slice_from k (- 4)) = None then StructError else AssertionError,
             s\<lparr>utxo_cache := AList.delete (tx_hash @ idx_packed) (utxo_cache s)\<rparr>))"
proof -
  have A: "raises_missing_utxo (spend_utxo s tx_hash tx_idx) \<longleftrightarrow>
    (\<exists>idx_packed. pack_H tx_idx = Some idx_packed \<and>
       (map_of (utxo_cache s) (tx_hash @ idx_packed) = None \<or>
        map_of (utxo_cache s) (tx_hash @ idx_packed) = Some []) \<and>
       (\<forall>(k, hx) \<in> set (db_iterator (utxo_db s) (104 # take 4 tx_hash @ idx_packed)).
          candidate_rejected s tx_hash
            (length (db_iterator (utxo_db s) (104 # take 4 tx_hash @ idx_packed))) k hx))"
  proof (cases "pack_H tx_idx")
    case None
    then show ?thesis by (simp add: spend_utxo_def raises_missing_utxo_def)
  next
    case (Some ip)
    show ?thesis
    proof (cases "map_of (utxo_cache s) (tx_hash @ ip) = None \<or>
                  map_of (utxo_cache s) (tx_hash @ ip) = Some []")
      case True
      then show ?thesis
        using Some by (auto simp: spend_utxo_def Let_def raises_scan_iff)
    next
      case False
      then show ?thesis
        using Some by (auto simp: spend_utxo_def Let_def raises_missing_utxo_def)
    qed
  qed
  have B: "spend_utxo s tx_hash tx_idx =
        Inl (if unpack_I (slice_from k (- 4)) = None then StructError else AssertionError,
             s\<lparr>utxo_cache := AList.delete (tx_hash @ idx_packed) (utxo_cache s)\<rparr>)"
    if p: "pack_H tx_idx = Some idx_packed"
      and m: "map_of (utxo_cache s) (tx_hash @ idx_packed) = None \<or>
              map_of (utxo_cache s) (tx_hash @ idx_packed) = Some []"
      and d: "db_iterator (utxo_db s) (104 # take 4 tx_hash @ idx_packed) = pre @ (k, hx) # post"
      and n: "1 < length (pre @ (k, hx) # post)"
      and r: "\<forall>(k', hx') \<in> set pre.
         candidate_rejected s tx_hash (length (pre @ (k, hx) # post)) k' hx'"
      and o: "ordinal_hash s k = None"
    for idx_packed pre k hx post
  proof -
    define s1 where "s1 = s\<lparr>utxo_cache := AList.delete (tx_hash @ idx_packed) (utxo_cache s)\<rparr>"
    define n' where "n' = length (pre @ (k, hx) # post)"
    have 1: "spend_utxo s tx_hash tx_idx = scan_candidates s1 tx_hash n' (pre @ (k, hx) # post)"
      using p m d by (auto simp: spend_utxo_def Let_def s1_def n'_def)
    have "\<forall>(k', hx') \<in> set pre. candidate_rejected s1 tx_hash n' k' hx'"
      using r by (simp add: s1_def n'_def)
    then have 2: "scan_candidates s1 tx_hash n' (pre @ (k, hx) # post) =
                  scan_candidates s1 tx_hash n' ((k, hx) # post)"
      by (rule scan_rejected_prefix)
    have 3: "ordinal_hash s1 k = None" using o by (simp add: s1_def)
    have 4: "1 < n'" using n by (simp add: n'_def)
    have "scan_candidates s1 tx_hash n' ((k, hx) # post) =
          Inl (if unpack_I (slice_from k (- 4)) = None then StructError else AssertionError, s1)"
      unfolding scan_Cons using 3 4 by simp
    with 1 2 show ?thesis by (simp add: s1_def)
  qed
  from A B show ?thesis by blast
qed

theorem spend_utxo_missing_iff_witness:
  "raises_missing_utxo (spend_utxo two_utxos hash_c 0) \<and>
   spend_utxo (two_utxos\<lparr>hashes_file := []\<rparr>) hash_b 0 =
     Inl (AssertionError, two_utxos\<lparr>hashes_file := []\<rparr>)"
proof -
  have a: "pack_H 0 = Some [0, 0] \<and>
      (map_of (utxo_cache two_utxos) (hash_c @ [0, 0]) = None \<or>
       map_of (utxo_cache two_utxos) (hash_c @ [0, 0]) = Some []) \<and>
      list_all (\<lambda>(k, hx). candidate_rejected two_utxos hash_c
           (length (db_iterator (utxo_db two_utxos) (104 # take 4 hash_c @ [0, 0]))) k hx)
        (db_iterator (utxo_db two_utxos) (104 # take 4 hash_c @ [0, 0]))"
    by code_simp
  have 1: "raises_missing_utxo (spend_utxo two_utxos hash_c 0)"
    using spend_utxo_missing_iff [of two_utxos hash_c 0] a
    unfolding list_all_iff by blast
  define s0 where "s0 = two_utxos\<lparr>hashes_file := []\<rparr>"
  define k0 :: bytes where "k0 = 104 # replicate 4 1 @ [0, 0, 0, 0, 0, 0]"
  define k1 :: bytes where "k1 = 104 # replicate 4 1 @ [0, 0, 1, 0, 0, 0]"
  have b: "pack_H 0 = Some [0, 0]"
    "map_of (utxo_cache s0) (hash_b @ [0, 0]) = None"
    "db_iterator (utxo_db s0) (104 # take 4 hash_b @ [0, 0]) = [] @ (k0, hashX_a) # [(k1, hashX_b)]"
    "1 < length ([] @ (k0, hashX_a) # [(k1, hashX_b)])"
    "ordinal_hash s0 k0 = None"
    "unpack_I (slice_from k0 (- 4)) \<noteq> None"
    unfolding s0_def k0_def k1_def by code_simp+
  have d: "s0\<lparr>utxo_cache := AList.delete (hash_b @ [0, 0]) (utxo_cache s0)\<rparr> = s0"
    using b(2) by (rule cache_miss_state)
  have c: "\<forall>(k', hx') \<in> set [].
         candidate_rejected s0 hash_b (length ([] @ (k0, hashX_a) # [(k1, hashX_b)])) k' hx'"
    by simp
  from spend_utxo_missing_iff [of s0 hash_b 0] b c
  have "spend_utxo s0 hash_b 0 =
        Inl (if unpack_I (slice_from k0 (- 4)) = None then StructError else AssertionError,
             s0\<lparr>utxo_cache := AList.delete (hash_b @ [0, 0]) (utxo_cache s0)\<rparr>)" by blast
  then have 2: "spend_utxo s0 hash_b 0 = Inl (AssertionError, s0)"
    using b(6) d by simp
  from 1 2 show ?thesis unfolding s0_def by blast
qed

theorem spend_utxo_store_path_witness:
  "spend_utxo two_utxos hash_b 0 =
     Inr (hashX_b @ [1, 0, 0, 0] @ amount_b,
          two_utxos\<lparr>db_deletes := [104 # replicate 4 1 @ [0, 0, 1, 0, 0, 0],
                                    117 # hashX_b @ [0, 0, 1, 0, 0, 0]]\<rparr>) \<and>
   length (hashX_b @ [1, 0, 0, 0] @ amount_b) = 23"
proof -
  have 1: "pack_H 0 = Some [0, 0]" by code_simp
  have 2: "map_of (utxo_cache two_utxos) (hash_b @ [0, 0]) = None" by code_simp
  have "list_all (\<lambda>(k, hx). ordinal_hash two_utxos k \<noteq> None)
          (db_iterator (utxo_db two_utxos) (104 # take 4 hash_b @ [0, 0]))" by code_simp
  then have 3: "\<forall>(k, hx) \<in> set (db_iterator (utxo_db two_utxos) (104 # take 4 hash_b @ [0, 0])).
      ordinal_hash two_utxos k \<noteq> None" by (simp only: list_all_iff)
  have 4: "spend_spec two_utxos hash_b [0, 0] =
     Inr (hashX_b @ [1, 0, 0, 0] @ amount_b,
          two_utxos\<lparr>db_deletes := [104 # replicate 4 1 @ [0, 0, 1, 0, 0, 0],
                                    117 # hashX_b @ [0, 0, 1, 0, 0, 0]]\<rparr>)" by code_simp
  have 5: "length hash_b = 32" by code_simp
  have 6: "utxo_rows_well_formed (utxo_db two_utxos)" by code_simp
  from spend_utxo_store_path [OF 1 2 3] 4 5 6 show ?thesis by auto
qed


section \<open>Properties of backing up\<close>

lemma utxo_frame_refl [simp]: "utxo_frame s s"
  by (simp add: utxo_frame_def)

lemma utxo_frame_trans: "utxo_frame s s' \<Longrightarrow> utxo_frame s' s'' \<Longrightarrow> utxo_frame s s''"
  by (simp add: utxo_frame_def)

lemma utxo_frame_cache [simp]: "utxo_frame s (s\<lparr>utxo_cache := c\<rparr>)"
  by (simp add: utxo_frame_def erase_utxo_def)

lemma utxo_frame_deletes [simp]: "utxo_frame s (s\<lparr>db_deletes := d\<rparr>)"
  by (simp add: utxo_frame_def erase_utxo_def)

lemma utxo_frame_touched [simp]: "utxo_frame s (s\<lparr>touched := t\<rparr>)"
  by (simp add: utxo_frame_def erase_utxo_def)

lemma utxo_frame_cache_touched [simp]: "utxo_frame s (s\<lparr>utxo_cache := c, touched := t\<rparr>)"
  by (simp add: utxo_frame_def erase_utxo_def)

lemma utxo_frame_fields:
  assumes "utxo_frame s s'"
  shows "height s' = height s" "tip s' = tip s" "tx_count s' = tx_count s"
    "tx_counts s' = tx_counts s" "utxo_db s' = utxo_db s" "hashes_file s' = hashes_file s"
    "fs_height s' = fs_height s" "fs_tx_count s' = fs_tx_count s"
    "db_height s' = db_height s" "db_tx_count s' = db_tx_count s" "db_tip s' = db_tip s"
    "headers s' = headers s" "tx_hashes s' = tx_hashes s" "undo_infos s' = undo_infos s"
    "hist s' = hist s" "caught_up s' = caught_up s"
    "raw_blocks_archive s' = raw_blocks_archive s" "headers_file s' = headers_file s"
    "last_flush_tx_count s' = last_flush_tx_count s" "utxo_flush_count s' = utxo_flush_count s"
proof -
  have e: "erase_utxo s' = erase_utxo s" using assms by (simp add: utxo_frame_def)
  have "f s' = f s" if "\<And>x. f (erase_utxo x) = f x" for f :: "bp \<Rightarrow> 'a"
    using e that by metis
  note r = this
  show "height s' = height s" "tip s' = tip s" "tx_count s' = tx_count s"
    "tx_counts s' = tx_counts s" "utxo_db s' = utxo_db s" "hashes_file s' = hashes_file s"
    "fs_height s' = fs_height s" "fs_tx_count s' = fs_tx_count s"
    "db_height s' = db_height s" "db_tx_count s' = db_tx_count s" "db_tip s' = db_tip s"
    "headers s' = headers s" "tx_hashes s' = tx_hashes s" "undo_infos s' = undo_infos s"
    "hist s' = hist s" "caught_up s' = caught_up s"
    "raw_blocks_archive s' = raw_blocks_archive s" "headers_file s' = headers_file s"
    "last_flush_tx_count s' = last_flush_tx_count s" "utxo_flush_count s' = utxo_flush_count s"
    by (rule r, simp add: erase_utxo_def)+
qed

lemma scan_candidates_frame:
  "scan_candidates s t n cs = Inr (v, s') \<Longrightarrow> utxo_frame s s'"
  by (induction cs) (auto simp: Let_def split: option.splits if_splits)

lemma spend_utxo_frame: "spend_utxo s t i = Inr (v, s') \<Longrightarrow> utxo_frame s s'"
  by (auto simp: spend_utxo_def Let_def split: option.splits if_splits
           dest!: scan_candidates_frame intro: utxo_frame_trans [OF utxo_frame_cache])

lemma spend_outputs_frame: "spend_outputs E s t i outs = Inr s' \<Longrightarrow> utxo_frame s s'"
proof (induction outs arbitrary: s i)
  case Nil
  then show ?case by simp
next
  case (Cons a outs)
  then show ?case
    by (auto split: option.splits if_splits sum.splits
             dest!: spend_utxo_frame intro: utxo_frame_trans [OF _ utxo_frame_trans [OF utxo_frame_touched]])
qed

lemma restore_inputs_frame: "restore_inputs s u n ins = Inr (s', n') \<Longrightarrow> utxo_frame s s'"
proof (induction ins arbitrary: s n)
  case Nil
  then show ?case by simp
next
  case (Cons a ins)
  then show ?case
    by (auto simp: Let_def split: option.splits intro: utxo_frame_trans [OF utxo_frame_cache_touched])
qed

lemma backup_txs_loop_frame: "backup_txs_loop E s u n txs = Inr (s', n') \<Longrightarrow> utxo_frame s s'"
proof (induction txs arbitrary: s n)
  case Nil
  then show ?case by simp
next
  case (Cons a txs)
  obtain tx h where a: "a = (tx, h)" by (cases a)
  from Cons.prems obtain s1 s2 n2 where
    1: "spend_outputs E s h 0 (outputs tx) = Inr s1" and
    2: "(if is_coinbase tx then Inr (s1, n) else restore_inputs s1 u n (rev (inputs tx))) = Inr (s2, n2)" and
    3: "backup_txs_loop E s2 u n2 txs = Inr (s', n')"
    unfolding a by (auto split: sum.splits)
  have "utxo_frame s s1" using 1 by (rule spend_outputs_frame)
  moreover have "utxo_frame s1 s2" using 2 by (auto split: if_splits dest: restore_inputs_frame)
  moreover have "utxo_frame s2 s'" using 3 by (rule Cons.IH)
  ultimately show ?case by (blast intro: utxo_frame_trans)
qed

lemma backup_txs_fields:
  assumes "backup_txs E s txs = Inr s'"
  shows "tip s' = tip s" "height s' = height s" "tx_counts s' = tx_counts s"
    "tx_count s' = tx_count s - int (length txs)"
proof -
  from assms obtain u s1 where "backup_txs_loop E s u (int (length u)) (rev txs) = Inr (s1, 0)"
    and s': "s' = s1\<lparr>tx_count := tx_count s1 - int (length txs)\<rparr>"
    by (auto simp: backup_txs_def split: option.splits sum.splits if_splits)
  then have "utxo_frame s s1" by (auto dest: backup_txs_loop_frame)
  then show "tip s' = tip s" "height s' = height s" "tx_counts s' = tx_counts s"
    "tx_count s' = tx_count s - int (length txs)"
    by (simp_all add: s' utxo_frame_fields)
qed

lemma backup_block_Inr:
  assumes "backup_block E s raw_block = Inr s'"
  shows "header_hash E (header (coin_block E raw_block (height s))) = tip s"
    "tip s' = header_prevhash E (header (coin_block E raw_block (height s)))"
    "height s' = height s - 1" "tx_counts s' = butlast (tx_counts s)"
    "tx_count s' = tx_count s - int (length (transactions (coin_block E raw_block (height s))))"
  using assms
  by (auto simp: backup_block_def Let_def split: if_splits sum.splits dest: backup_txs_fields)

lemma backup_blocks_loop_append:
  "backup_blocks_loop E s pre = Inr s1 \<Longrightarrow>
   backup_blocks_loop E s (pre @ rest) = backup_blocks_loop E s1 rest"
  by (induction pre arbitrary: s) (auto split: sum.splits)

lemma backup_flush_Inr:
  assumes "backup_flush E s = Inr s'"
  shows "tip s' = tip s" "height s' = height s"
  using assms
  by (auto simp: backup_flush_def Let_def flush_state_def flush_utxos_def write_utxo_state_def
           split: if_splits)

lemma backup_blocks_loop_height:
  "backup_blocks_loop E s bs = Inr s' \<Longrightarrow> height s' = height s - int (length bs)"
proof (induction bs arbitrary: s)
  case Nil
  then show ?case by simp
next
  case (Cons b bs)
  from Cons.prems obtain s1 where 1: "backup_block E s b = Inr s1"
    and 2: "backup_blocks_loop E s1 bs = Inr s'"
    by (auto split: sum.splits)
  from Cons.IH [OF 2] backup_block_Inr(3) [OF 1] show ?case by simp
qed

lemma backup_blocks_loop_rounds:
  assumes "backup_blocks_loop E s bs = Inr s'" "i < length bs"
  shows "\<exists>si sj. backup_blocks_loop E s (take i bs) = Inr si \<and>
           backup_block E si (bs ! i) = Inr sj \<and>
           backup_blocks_loop E s (take (Suc i) bs) = Inr sj"
  using assms
proof (induction bs arbitrary: s i)
  case Nil
  then show ?case by simp
next
  case (Cons b bs)
  from Cons.prems(1) obtain s1 where 1: "backup_block E s b = Inr s1"
    and 2: "backup_blocks_loop E s1 bs = Inr s'"
    by (auto split: sum.splits)
  show ?case
  proof (cases i)
    case 0
    then show ?thesis using 1 by simp
  next
    case (Suc j)
    with Cons.prems(2) have "j < length bs" by simp
    from Cons.IH [OF 2 this] show ?thesis using 1 Suc by simp
  qed
qed

text \<open>
  Claim C9.  For every block handed to \<open>backup_blocks\<close>, once the blocks before it are
  backed up (reaching \<open>s1\<close>): if its header hash is not the tip, the loop, and
  \<open>backup_blocks\<close> itself, raise the \<open>ChainError\<close> for a block that is not the tip,
  with the state exactly as it was before the block; and when the round for the block
  succeeds, the header hash was the tip, the tip becomes the header's previous hash and
  the height is one less.  When \<open>backup_blocks\<close> succeeds, every block handed to it went
  through such a round, in order: its header hash was the tip of the state reached by the
  blocks before it, and its round left the header's previous hash as the tip and a height
  one less; the state returned has the height lowered by the number of blocks and the
  previous hash of the last block as its tip.
\<close>

theorem backup_blocks_checks_tip:
  "(\<forall>s1. backup_blocks_loop E s pre = Inr s1 \<longrightarrow>
      (header_hash E (header (coin_block E raw_block (height s1))) \<noteq> tip s1 \<longrightarrow>
         backup_blocks_loop E s (pre @ raw_block # post) = Inl (ChainError BackupNotTip, s1) \<and>
         (assert_flushed s \<and> int (length (pre @ raw_block # post)) \<le> height s \<longrightarrow>
            backup_blocks E s (pre @ raw_block # post) = Inl (ChainError BackupNotTip, s1))) \<and>
      (\<forall>s2. backup_block E s1 raw_block = Inr s2 \<longrightarrow>
         header_hash E (header (coin_block E raw_block (height s1))) = tip s1 \<and>
         tip s2 = header_prevhash E (header (coin_block E raw_block (height s1))) \<and>
         height s2 = height s1 - 1 \<and>
         backup_blocks_loop E s (pre @ raw_block # post) = backup_blocks_loop E s2 post)) \<and>
   (\<forall>s'. backup_blocks E s raw_blocks = Inr s' \<longrightarrow>
      raw_blocks \<noteq> [] \<and>
      height s' = height s - int (length raw_blocks) \<and>
      tip s' = header_prevhash E (header (coin_block E (last raw_blocks) (height s' + 1))) \<and>
      (\<forall>i < length raw_blocks. \<exists>si sj.
         backup_blocks_loop E s (take i raw_blocks) = Inr si \<and>
         height si = height s - int i \<and>
         header_hash E (header (coin_block E (raw_blocks ! i) (height si))) = tip si \<and>
         backup_block E si (raw_blocks ! i) = Inr sj \<and>
         backup_blocks_loop E s (take (Suc i) raw_blocks) = Inr sj \<and>
         tip sj = header_prevhash E (header (coin_block E (raw_blocks ! i) (height si))) \<and>
         height sj = height si - 1))"
proof -
  have A: "backup_blocks_loop E s (pre @ raw_block # post) = Inl (ChainError BackupNotTip, s1) \<and>
         (assert_flushed s \<and> int (length (pre @ raw_block # post)) \<le> height s \<longrightarrow>
            backup_blocks E s (pre @ raw_block # post) = Inl (ChainError BackupNotTip, s1))"
    if l: "backup_blocks_loop E s pre = Inr s1"
      and m: "header_hash E (header (coin_block E raw_block (height s1))) \<noteq> tip s1" for s1
  proof -
    have app: "backup_blocks_loop E s (pre @ raw_block # post) =
               backup_blocks_loop E s1 (raw_block # post)"
      using l by (rule backup_blocks_loop_append)
    have "backup_blocks_loop E s1 (raw_block # post) = Inl (ChainError BackupNotTip, s1)"
      using m by (simp add: backup_block_def Let_def)
    with app show ?thesis by (simp add: backup_blocks_def)
  qed
  have B: "header_hash E (header (coin_block E raw_block (height s1))) = tip s1 \<and>
         tip s2 = header_prevhash E (header (coin_block E raw_block (height s1))) \<and>
         height s2 = height s1 - 1 \<and>
         backup_blocks_loop E s (pre @ raw_block # post) = backup_blocks_loop E s2 post"
    if l: "backup_blocks_loop E s pre = Inr s1" and b: "backup_block E s1 raw_block = Inr s2"
    for s1 s2
  proof -
    have "backup_blocks_loop E s (pre @ raw_block # post) =
               backup_blocks_loop E s1 (raw_block # post)"
      using l by (rule backup_blocks_loop_append)
    then show ?thesis using b backup_block_Inr(1,2,3) [OF b] by simp
  qed
  have C: "raw_blocks \<noteq> [] \<and>
      height s' = height s - int (length raw_blocks) \<and>
      tip s' = header_prevhash E (header (coin_block E (last raw_blocks) (height s' + 1))) \<and>
      (\<forall>i < length raw_blocks. \<exists>si sj.
         backup_blocks_loop E s (take i raw_blocks) = Inr si \<and>
         height si = height s - int i \<and>
         header_hash E (header (coin_block E (raw_blocks ! i) (height si))) = tip si \<and>
         backup_block E si (raw_blocks ! i) = Inr sj \<and>
         backup_blocks_loop E s (take (Suc i) raw_blocks) = Inr sj \<and>
         tip sj = header_prevhash E (header (coin_block E (raw_blocks ! i) (height si))) \<and>
         height sj = height si - 1)"
    if ok: "backup_blocks E s raw_blocks = Inr s'" for s'
  proof -
    from ok obtain s1 where fl: "assert_flushed s"
      and l: "backup_blocks_loop E s raw_blocks = Inr s1"
      and f: "backup_flush E s1 = Inr s'"
      by (auto simp: backup_blocks_def split: if_splits sum.splits)
    from f have lt: "height s1 < db_height s1"
      by (auto simp: backup_flush_def split: if_splits)
    have ne: "raw_blocks \<noteq> []"
    proof
      assume "raw_blocks = []"
      with l have "s1 = s" by simp
      with lt fl show False by (simp add: assert_flushed_def)
    qed
    have h1: "height s1 = height s - int (length raw_blocks)"
      using l by (rule backup_blocks_loop_height)
    have h': "height s' = height s - int (length raw_blocks)"
      using backup_flush_Inr(2) [OF f] h1 by simp
    have R: "\<exists>si sj.
         backup_blocks_loop E s (take i raw_blocks) = Inr si \<and>
         height si = height s - int i \<and>
         header_hash E (header (coin_block E (raw_blocks ! i) (height si))) = tip si \<and>
         backup_block E si (raw_blocks ! i) = Inr sj \<and>
         backup_blocks_loop E s (take (Suc i) raw_blocks) = Inr sj \<and>
         tip sj = header_prevhash E (header (coin_block E (raw_blocks ! i) (height si))) \<and>
         height sj = height si - 1" if i: "i < length raw_blocks" for i
    proof -
      from backup_blocks_loop_rounds [OF l i] obtain si sj where
        1: "backup_blocks_loop E s (take i raw_blocks) = Inr si"
        and 2: "backup_block E si (raw_blocks ! i) = Inr sj"
        and 3: "backup_blocks_loop E s (take (Suc i) raw_blocks) = Inr sj"
        by blast
      have "height si = height s - int (length (take i raw_blocks))"
        using 1 by (rule backup_blocks_loop_height)
      then have 4: "height si = height s - int i" using i by simp
      from 1 2 3 4 backup_block_Inr(1,2,3) [OF 2] show ?thesis by blast
    qed
    define k where "k = length raw_blocks - 1"
    from ne have k: "k < length raw_blocks" "Suc k = length raw_blocks"
      by (simp_all add: k_def)
    from R [OF k(1)] obtain si sj where X:
        "backup_blocks_loop E s (take k raw_blocks) = Inr si \<and>
         height si = height s - int k \<and>
         header_hash E (header (coin_block E (raw_blocks ! k) (height si))) = tip si \<and>
         backup_block E si (raw_blocks ! k) = Inr sj \<and>
         backup_blocks_loop E s (take (Suc k) raw_blocks) = Inr sj \<and>
         tip sj = header_prevhash E (header (coin_block E (raw_blocks ! k) (height si))) \<and>
         height sj = height si - 1"
      by (elim exE)
    from X have 1: "height si = height s - int k"
      and 3: "backup_blocks_loop E s (take (Suc k) raw_blocks) = Inr sj"
      and 4: "tip sj = header_prevhash E (header (coin_block E (raw_blocks ! k) (height si)))"
      by simp_all
    from 3 l k(2) have "sj = s1" by simp
    moreover have "raw_blocks ! k = last raw_blocks"
      using ne by (simp add: k_def last_conv_nth)
    moreover have "height si = height s' + 1" using 1 h' k(2) by linarith
    ultimately have t: "tip s' = header_prevhash E (header (coin_block E (last raw_blocks) (height s' + 1)))"
      using 4 backup_flush_Inr(1) [OF f] by simp
    from ne h' t R show ?thesis by blast
  qed
  from A B C show ?thesis by blast
qed

theorem backup_blocks_checks_tip_witness:
  "backup_blocks_loop demo_env demo_advanced ([] @ [9, 9, 9] # []) =
     Inl (ChainError BackupNotTip, demo_advanced) \<and>
   backup_blocks demo_env demo_advanced ([] @ [9, 9, 9] # []) =
     Inl (ChainError BackupNotTip, demo_advanced) \<and>
   tip (projr (backup_block demo_env demo_advanced [1, 2, 99])) = [1] \<and>
   height (projr (backup_block demo_env demo_advanced [1, 2, 99])) = 0 \<and>
   \<not> isl (backup_blocks demo_env demo_advanced [[1, 2, 99]]) \<and>
   height demo_advanced = 1 \<and> tip demo_advanced = [2] \<and>
   height (projr (backup_blocks demo_env demo_advanced [[1, 2, 99]])) = 0 \<and>
   tip (projr (backup_blocks demo_env demo_advanced [[1, 2, 99]])) = [1]"
proof -
  have 0: "backup_blocks_loop demo_env demo_advanced [] = Inr demo_advanced" by simp
  have 1: "header_hash demo_env (header (coin_block demo_env [9, 9, 9] (height demo_advanced)))
             \<noteq> tip demo_advanced" by code_simp
  have 2: "assert_flushed demo_advanced \<and>
           int (length ([] @ [9, 9, 9 :: 8 word] # [])) \<le> height demo_advanced" by code_simp
  have 3: "\<not> isl (backup_block demo_env demo_advanced [1, 2, 99])" by code_simp
  then obtain s2 where s2: "backup_block demo_env demo_advanced [1, 2, 99] = Inr s2"
    by (cases "backup_block demo_env demo_advanced [1, 2, 99]") auto
  have 4: "header_prevhash demo_env
             (header (coin_block demo_env [1, 2, 99] (height demo_advanced))) = [1]"
    by code_simp
  have 5: "height demo_advanced = 1" "tip demo_advanced = [2]" by code_simp+
  have 6: "\<not> isl (backup_blocks demo_env demo_advanced [[1, 2, 99]])" by code_simp
  then obtain s' where s': "backup_blocks demo_env demo_advanced [[1, 2, 99]] = Inr s'"
    by (cases "backup_blocks demo_env demo_advanced [[1, 2, 99]]") auto
  have 7: "header_prevhash demo_env (header (coin_block demo_env [1, 2, 99] h)) = [1]" for h
    by (simp add: demo_env_def demo_block_def)
  from backup_blocks_checks_tip [of demo_env demo_advanced "[]" "[9, 9, 9]" "[]"] 0 1 2
  have a: "backup_blocks_loop demo_env demo_advanced ([] @ [9, 9, 9] # []) =
     Inl (ChainError BackupNotTip, demo_advanced) \<and>
   backup_blocks demo_env demo_advanced ([] @ [9, 9, 9] # []) =
     Inl (ChainError BackupNotTip, demo_advanced)" by blast
  from backup_blocks_checks_tip [of demo_env demo_advanced "[]" "[1, 2, 99]" "[]"] 0 s2
  have "tip s2 = header_prevhash demo_env
             (header (coin_block demo_env [1, 2, 99] (height demo_advanced))) \<and>
        height s2 = height demo_advanced - 1" by blast
  then have b: "tip s2 = [1] \<and> height s2 = 0" using 4 5 by simp
  from backup_blocks_checks_tip [of demo_env demo_advanced _ _ _ "[[1, 2, 99]]"] s'
  have "height s' = height demo_advanced - int (length [[1, 2, 99 :: 8 word]]) \<and>
        tip s' = header_prevhash demo_env
          (header (coin_block demo_env (last [[1, 2, 99]]) (height s' + 1)))" by blast
  then have c: "height s' = 0 \<and> tip s' = [1]" using 5 7 by simp
  from a b c s2 s' 5 6 show ?thesis by simp
qed


section \<open>Properties of flushing\<close>

lemma flush_True_flushed:
  assumes a: "flush E s True = Inr s'"
  shows "height s' = db_height s' \<and> assert_flushed s'"
proof (cases "height s = db_height s")
  case True
  with a show ?thesis by (auto simp: flush_def split: if_splits)
next
  case False
  with a obtain s1 where f: "fs_flush s = Inr s1"
    and s': "s' = flush_state E (flush_state E (flush_utxos E (s1\<lparr>hist := hist_flush (hist s1)\<rparr>)))"
    by (auto simp: flush_def Let_def split: sum.splits)
  show ?thesis
    unfolding s' using f
    by (auto simp: fs_flush_def flush_state_def flush_utxos_def Let_def assert_flushed_def
                   hist_assert_flushed_def hist_flush_def fs_update_def write_utxo_state_def
             split: if_splits)
qed

text \<open>
  Claim C5.  A second \<open>flush(true)\<close> right after a successful one finds
  \<open>height = db_height\<close>, passes \<open>assert_flushed\<close> and returns the state unchanged.
\<close>

theorem flush_idempotent:
  "flush E s True = Inr s' \<Longrightarrow>
   height s' = db_height s' \<and> assert_flushed s' \<and> flush E s' True = Inr s'"
  using flush_True_flushed [of E s s'] by (simp add: flush_def)

theorem flush_idempotent_witness:
  "assert_flushed (projr (flush demo_env demo_unflushed True)) \<and>
   flush demo_env (projr (flush demo_env demo_unflushed True)) True =
     Inr (projr (flush demo_env demo_unflushed True)) \<and>
   height demo_unflushed \<noteq> db_height demo_unflushed"
proof -
  have "\<not> isl (flush demo_env demo_unflushed True)" by code_simp
  then obtain s' where s': "flush demo_env demo_unflushed True = Inr s'"
    by (cases "flush demo_env demo_unflushed True") auto
  have "height demo_unflushed \<noteq> db_height demo_unflushed" by code_simp
  with flush_idempotent [OF s'] s' show ?thesis by simp
qed

lemma check_cache_size_run:
  "check_cache_size E s = run_flush E s (flush_triggered E s)"
  by (simp add: check_cache_size_def run_flush_def flush_triggered_def utxo_bytes_def
                hist_bytes_def Let_def)

lemma div_lower:
  fixes u q d :: int
  assumes "0 < d" "q * d \<le> u"
  shows "q \<le> u div d"
proof -
  have "(q * d) div d \<le> u div d" using assms by (intro zdiv_mono1) auto
  then show ?thesis using assms by simp
qed

lemma utxo_over_80:
  assumes "100 * utxo_bytes s > 80 * (cache_MB E * 1000000)"
  shows "utxo_bytes s div 1000000 \<ge> cache_MB E * 4 div 5"
proof -
  have "(cache_MB E * 4 div 5) * 5 \<le> cache_MB E * 4" by simp
  then have "(cache_MB E * 4 div 5) * 1000000 \<le> utxo_bytes s" using assms by linarith
  then show ?thesis by (intro div_lower) auto
qed

lemma hist_over_20:
  assumes "100 * hist_bytes E s > 20 * (cache_MB E * 1000000)"
  shows "hist_bytes E s div 1000000 \<ge> cache_MB E div 5"
proof -
  have "(cache_MB E div 5) * 5 \<le> cache_MB E" by simp
  then have "(cache_MB E div 5) * 1000000 \<le> hist_bytes E s" using assms by linarith
  then show ?thesis by (intro div_lower) auto
qed

text \<open>
  Claim C6 as stated fails: with a budget of 5 MB and 20000 cached UTXOs (82% of the
  budget) the stated policy asks for \<open>flush(true)\<close>, but \<open>check_cache_size\<close> returns
  without flushing, since the megabytes together are below the budget and the history
  is below a fifth of it.
\<close>

theorem check_cache_size_counterexample:
  "flush_policy_spec small_env big_cache = Some True \<and>
   check_cache_size small_env big_cache = Inr big_cache \<and>
   flush small_env big_cache True \<noteq> Inr big_cache"
proof -
  have len: "length (utxo_cache big_cache) = 20000" by (simp add: big_cache_def)
  have u: "length (db_deletes demo_unflushed) = 2"
    "unflushed_memsize demo_env (hist demo_unflushed) = 180"
    "tx_count demo_unflushed = 3" "fs_tx_count demo_unflushed = 1"
    "height demo_unflushed = 1" "fs_height demo_unflushed = 0"
    by code_simp+
  have d: "length (db_deletes big_cache) = 2" "unflushed_memsize small_env (hist big_cache) = 180"
    "tx_count big_cache = 3" "fs_tx_count big_cache = 1" "height big_cache = 1"
    "fs_height big_cache = 0" "cache_MB small_env = 5"
    using u by (simp_all add: big_cache_def small_env_def)
  have 1: "flush_policy_spec small_env big_cache = Some True"
    by (simp add: flush_policy_spec_def utxo_bytes_def len d)
  have 2: "check_cache_size small_env big_cache = Inr big_cache"
    by (simp add: check_cache_size_def Let_def len d)
  have "\<not> assert_flushed big_cache"
    using len by (auto simp: assert_flushed_def)
  then have 3: "flush small_env big_cache True \<noteq> Inr big_cache"
    using flush_True_flushed [of small_env big_cache big_cache] by auto
  from 1 2 3 show ?thesis by simp
qed

text \<open>
  Claim C6, amended.  \<open>check_cache_size\<close> calls \<open>flush\<close> exactly when, in whole megabytes
  of one million bytes, the UTXO and history estimates together reach the budget or the
  history estimate reaches a fifth of it, and passes \<open>flush_utxos\<close> true exactly when the
  UTXO megabytes reach four fifths of the budget.  So UTXO bytes above 80% of the budget
  give \<open>flush(true)\<close> once a flush is triggered at all, and history bytes above 20% of
  the budget always trigger a flush, without the UTXOs when these are below four fifths.
\<close>

theorem check_cache_size_policy:
  "check_cache_size E s = run_flush E s (flush_triggered E s) \<and>
   (flush_triggered E s \<noteq> None \<longleftrightarrow>
      utxo_bytes s div 1000000 + hist_bytes E s div 1000000 \<ge> cache_MB E \<or>
      hist_bytes E s div 1000000 \<ge> cache_MB E div 5) \<and>
   (\<forall>b. flush_triggered E s = Some b \<longrightarrow>
      b = (utxo_bytes s div 1000000 \<ge> cache_MB E * 4 div 5)) \<and>
   (100 * utxo_bytes s > 80 * (cache_MB E * 1000000) \<and> flush_triggered E s \<noteq> None \<longrightarrow>
      flush_triggered E s = Some True) \<and>
   (100 * hist_bytes E s > 20 * (cache_MB E * 1000000) \<longrightarrow>
      flush_triggered E s = Some (utxo_bytes s div 1000000 \<ge> cache_MB E * 4 div 5))"
  using utxo_over_80 [of E s] hist_over_20 [of E s]
  by (auto simp: check_cache_size_run flush_triggered_def)


theorem check_cache_size_policy_witness:
  "flush_triggered hist_env demo_unflushed = Some False \<and>
   check_cache_size hist_env demo_unflushed = flush hist_env demo_unflushed False \<and>
   flush_triggered (demo_env\<lparr>cache_MB := 4\<rparr>) big_cache = Some True"
proof -
  have 1: "100 * hist_bytes hist_env demo_unflushed > 20 * (cache_MB hist_env * 1000000)"
    by code_simp
  have 2: "\<not> utxo_bytes demo_unflushed div 1000000 \<ge> cache_MB hist_env * 4 div 5"
    by code_simp
  have u: "length (db_deletes demo_unflushed) = 2"
    "unflushed_memsize demo_env (hist demo_unflushed) = 180"
    "tx_count demo_unflushed = 3" "fs_tx_count demo_unflushed = 1"
    "height demo_unflushed = 1" "fs_height demo_unflushed = 0"
    by code_simp+
  have 3: "100 * utxo_bytes big_cache > 80 * (cache_MB (demo_env\<lparr>cache_MB := 4\<rparr>) * 1000000)"
    by (simp add: utxo_bytes_def big_cache_def)
  have 4: "flush_triggered (demo_env\<lparr>cache_MB := 4\<rparr>) big_cache \<noteq> None"
    using u by (simp add: flush_triggered_def utxo_bytes_def hist_bytes_def big_cache_def)
  from check_cache_size_policy [of hist_env demo_unflushed] 1 2
  have a: "flush_triggered hist_env demo_unflushed = Some False \<and>
   check_cache_size hist_env demo_unflushed = flush hist_env demo_unflushed False"
    by (simp add: run_flush_def)
  from check_cache_size_policy [of "demo_env\<lparr>cache_MB := 4\<rparr>" big_cache] 3 4
  have b: "flush_triggered (demo_env\<lparr>cache_MB := 4\<rparr>) big_cache = Some True"
    by blast
  from a b show ?thesis by simp
qed

lemma spend_inputs_frame:
  "spend_inputs s ins u hx = Inr (s', u', hx') \<Longrightarrow> utxo_frame s s'"
proof (induction ins arbitrary: s u hx)
  case Nil
  then show ?case by simp
next
  case (Cons a ins)
  then show ?case
    by (auto split: sum.splits dest!: spend_utxo_frame intro: utxo_frame_trans)
qed

lemma add_outputs_frame:
  "add_outputs E s t n i outs hx = Inr (s', hx') \<Longrightarrow> utxo_frame s s'"
proof (induction outs arbitrary: s i hx)
  case Nil
  then show ?case by simp
next
  case (Cons a outs)
  then show ?case
    by (auto split: option.splits if_splits intro: utxo_frame_trans [OF utxo_frame_cache])
qed

lemma advance_txs_loop_frame:
  "advance_txs_loop E s txs u n hbt = Inr (s', u', n', hbt') \<Longrightarrow>
   utxo_frame s s' \<and> n' = n + int (length txs)"
proof (induction txs arbitrary: s u n hbt)
  case Nil
  then show ?case by simp
next
  case (Cons a txs)
  obtain tx h where a: "a = (tx, h)" by (cases a)
  from Cons.prems obtain nb s1 u1 hx1 s2 hx2 where
    1: "(if is_coinbase tx then Inr (s, u, []) else spend_inputs s (inputs tx) u []) = Inr (s1, u1, hx1)"
    and 2: "add_outputs E s1 h nb 0 (outputs tx) hx1 = Inr (s2, hx2)"
    and 3: "advance_txs_loop E (s2\<lparr>touched := touched s2 \<union> set hx2\<rparr>) txs u1 (n + 1) (hbt @ [hx2])
            = Inr (s', u', n', hbt')"
    unfolding a by (auto split: option.splits sum.splits)
  have "utxo_frame s s1" using 1 by (auto split: if_splits dest: spend_inputs_frame)
  moreover have "utxo_frame s1 s2" using 2 by (rule add_outputs_frame)
  moreover from Cons.IH [OF 3]
  have "utxo_frame (s2\<lparr>touched := touched s2 \<union> set hx2\<rparr>) s'" and n: "n' = n + 1 + int (length txs)"
    by auto
  then have "utxo_frame s2 s'" by (blast intro: utxo_frame_trans [OF utxo_frame_touched])
  ultimately have "utxo_frame s s'" by (blast intro: utxo_frame_trans)
  with n show ?case by simp
qed

lemma advance_txs_shadow:
  assumes "advance_txs E s txs = Inr (u, s')"
  shows "height s' = height s" "fs_height s' = fs_height s" "db_height s' = db_height s"
    "fs_tx_count s' = fs_tx_count s" "db_tx_count s' = db_tx_count s"
    "tx_count s' = tx_count s + int (length txs)" "db_tip s' = db_tip s"
    "caught_up s' = caught_up s"
proof -
  let ?s0 = "s\<lparr>tx_hashes := tx_hashes s @ [concat (map snd txs)]\<rparr>"
  from assms obtain s1 n hbt where l: "advance_txs_loop E ?s0 txs [] (tx_count ?s0) [] = Inr (s1, u, n, hbt)"
    and s': "s' = s1\<lparr>hist := hist_add_unflushed (hist s1) hbt (tx_count s1), tx_count := n,
                      tx_counts := tx_counts s1 @ [n]\<rparr>"
    by (auto simp: advance_txs_def Let_def split: sum.splits)
  from advance_txs_loop_frame [OF l] have f: "utxo_frame ?s0 s1" and n: "n = tx_count s + int (length txs)"
    by auto
  show "height s' = height s" "fs_height s' = fs_height s" "db_height s' = db_height s"
    "fs_tx_count s' = fs_tx_count s" "db_tx_count s' = db_tx_count s"
    "tx_count s' = tx_count s + int (length txs)" "db_tip s' = db_tip s"
    "caught_up s' = caught_up s"
    using utxo_frame_fields [OF f] n by (simp_all add: s')
qed

lemma advance_blocks_loop_shadow:
  "advance_blocks_loop E s m h blocks = Inr (s', h') \<Longrightarrow>
   h' = h + int (length blocks) \<and> height s' = height s \<and> fs_height s' = fs_height s \<and>
   db_height s' = db_height s \<and> fs_tx_count s' = fs_tx_count s \<and>
   db_tx_count s' = db_tx_count s \<and> tx_count s \<le> tx_count s' \<and> db_tip s' = db_tip s \<and>
   caught_up s' = caught_up s"
proof (induction blocks arbitrary: s h)
  case Nil
  then show ?case by simp
next
  case (Cons b blocks)
  from Cons.prems obtain u s1 where 1: "advance_txs E s (transactions b) = Inr (u, s1)"
    and 2: "advance_blocks_loop E
            (if h + 1 \<ge> m
             then write_raw_block (raw b) (h + 1) (s1\<lparr>undo_infos := undo_infos s1 @ [(u, h + 1)]\<rparr>)
             else s1) m (h + 1) blocks = Inr (s', h')"
    by (auto split: sum.splits)
  from Cons.IH [OF 2] advance_txs_shadow [OF 1] show ?case
    by (auto simp: write_raw_block_def split: if_splits)
qed

lemma flush_state_shadow [simp]:
  "height (flush_state E s) = height s" "fs_height (flush_state E s) = fs_height s"
  "db_height (flush_state E s) = db_height s" "tx_count (flush_state E s) = tx_count s"
  "fs_tx_count (flush_state E s) = fs_tx_count s" "db_tx_count (flush_state E s) = db_tx_count s"
  "tip (flush_state E s) = tip s" "db_tip (flush_state E s) = db_tip s"
  by (simp_all add: flush_state_def Let_def)

lemma flush_utxos_shadow [simp]:
  "height (flush_utxos E s) = height s" "fs_height (flush_utxos E s) = fs_height s"
  "db_height (flush_utxos E s) = height s" "tx_count (flush_utxos E s) = tx_count s"
  "fs_tx_count (flush_utxos E s) = fs_tx_count s" "db_tx_count (flush_utxos E s) = tx_count s"
  "tip (flush_utxos E s) = tip s" "db_tip (flush_utxos E s) = tip s"
  by (simp_all add: flush_utxos_def Let_def)

lemma fs_flush_shadow:
  assumes "fs_flush s = Inr s'"
  shows "height s' = height s" "fs_height s' = height s" "db_height s' = db_height s"
    "tx_count s' = tx_count s" "fs_tx_count s' = tx_count s" "db_tx_count s' = db_tx_count s"
    "tip s' = tip s" "db_tip s' = db_tip s"
  using assms by (auto simp: fs_flush_def fs_update_def split: if_splits)

lemma flush_shadow:
  assumes "shadow_inv s" "flush E s b = Inr s'"
  shows "shadow_inv s' \<and> fs_height s' = height s' \<and> fs_tx_count s' = tx_count s' \<and>
         (b \<longrightarrow> shadow_equal s')"
proof (cases "height s = db_height s")
  case True
  with assms(2) have s': "s' = s" and "assert_flushed s"
    by (auto simp: flush_def split: if_splits)
  then have e: "tx_count s = fs_tx_count s" "fs_tx_count s = db_tx_count s"
    "height s = fs_height s" "fs_height s = db_height s"
    unfolding assert_flushed_def by blast+
  from assms(1) True have t: "tip s = db_tip s" unfolding shadow_inv_def by blast
  show ?thesis
    unfolding s' shadow_equal_def using assms(1) e t by metis
next
  case False
  with assms(2) obtain s1 where f: "fs_flush s = Inr s1"
    and s': "s' = flush_state E (flush_state E
               (if b then flush_utxos E (s1\<lparr>hist := hist_flush (hist s1)\<rparr>)
                else s1\<lparr>hist := hist_flush (hist s1)\<rparr>))"
    by (auto simp: flush_def Let_def split: sum.splits)
  show ?thesis
  proof (cases b)
    case True
    then show ?thesis
      unfolding s' using fs_flush_shadow [OF f]
      by (simp add: shadow_inv_def shadow_ordered_def shadow_equal_def)
  next
    case b: False
    then show ?thesis
      unfolding s' using fs_flush_shadow [OF f] assms(1) False
      by (simp add: shadow_inv_def shadow_ordered_def)
  qed
qed

lemma flush_fs_equal:
  assumes "flush E s b = Inr s'"
  shows "fs_height s' = height s'" "fs_tx_count s' = tx_count s'"
proof -
  have "fs_height s' = height s' \<and> fs_tx_count s' = tx_count s'"
  proof (cases "height s = db_height s")
    case True
    with assms have "s' = s" "assert_flushed s" by (auto simp: flush_def split: if_splits)
    then show ?thesis by (simp add: assert_flushed_def)
  next
    case False
    with assms obtain s1 where f: "fs_flush s = Inr s1"
      and s': "s' = flush_state E (flush_state E
                 (if b then flush_utxos E (s1\<lparr>hist := hist_flush (hist s1)\<rparr>)
                  else s1\<lparr>hist := hist_flush (hist s1)\<rparr>))"
      by (auto simp: flush_def Let_def split: sum.splits)
    show ?thesis unfolding s' using fs_flush_shadow [OF f] by (cases b) simp_all
  qed
  then show "fs_height s' = height s'" "fs_tx_count s' = tx_count s'" by simp_all
qed

lemma flush_False_db:
  assumes "flush E s False = Inr s'"
  shows "db_height s' = db_height s" "db_tx_count s' = db_tx_count s" "db_tip s' = db_tip s"
proof -
  have "db_height s' = db_height s \<and> db_tx_count s' = db_tx_count s \<and> db_tip s' = db_tip s"
  proof (cases "height s = db_height s")
    case True
    with assms have "s' = s" by (auto simp: flush_def split: if_splits)
    then show ?thesis by simp
  next
    case False
    with assms obtain s1 where f: "fs_flush s = Inr s1"
      and s': "s' = flush_state E (flush_state E (s1\<lparr>hist := hist_flush (hist s1)\<rparr>))"
      by (auto simp: flush_def Let_def split: sum.splits)
    show ?thesis unfolding s' using fs_flush_shadow [OF f] by simp
  qed
  then show "db_height s' = db_height s" "db_tx_count s' = db_tx_count s" "db_tip s' = db_tip s"
    by simp_all
qed

lemma backup_txs_shadow:
  assumes "backup_txs E s txs = Inr s'"
  shows "db_height s' = db_height s" "db_tx_count s' = db_tx_count s" "db_tip s' = db_tip s"
    "fs_height s' = fs_height s" "fs_tx_count s' = fs_tx_count s"
proof -
  from assms obtain u s1 where "backup_txs_loop E s u (int (length u)) (rev txs) = Inr (s1, 0)"
    and s': "s' = s1\<lparr>tx_count := tx_count s1 - int (length txs)\<rparr>"
    by (auto simp: backup_txs_def split: option.splits sum.splits if_splits)
  then have "utxo_frame s s1" by (auto dest: backup_txs_loop_frame)
  then show "db_height s' = db_height s" "db_tx_count s' = db_tx_count s" "db_tip s' = db_tip s"
    "fs_height s' = fs_height s" "fs_tx_count s' = fs_tx_count s"
    by (simp_all add: s' utxo_frame_fields)
qed

lemma backup_block_shadow:
  assumes "backup_block E s raw_block = Inr s'"
  shows "db_height s' = db_height s" "db_tx_count s' = db_tx_count s" "db_tip s' = db_tip s"
    "fs_height s' = fs_height s" "fs_tx_count s' = fs_tx_count s"
  using assms
  by (auto simp: backup_block_def Let_def split: if_splits sum.splits dest: backup_txs_shadow)

lemma backup_blocks_loop_shadow:
  "backup_blocks_loop E s bs = Inr s' \<Longrightarrow>
   height s' = height s - int (length bs) \<and> tx_count s' \<le> tx_count s \<and>
   db_height s' = db_height s \<and> db_tx_count s' = db_tx_count s \<and> db_tip s' = db_tip s \<and>
   fs_height s' = fs_height s \<and> fs_tx_count s' = fs_tx_count s"
proof (induction bs arbitrary: s)
  case Nil
  then show ?case by simp
next
  case (Cons b bs)
  from Cons.prems obtain s1 where 1: "backup_block E s b = Inr s1"
    and 2: "backup_blocks_loop E s1 bs = Inr s'"
    by (auto split: sum.splits)
  from Cons.IH [OF 2] backup_block_Inr(3,5) [OF 1] backup_block_shadow [OF 1]
  show ?case by simp
qed


text \<open>
  Claim C2 as stated fails: a successful \<open>flush(false)\<close> leaves \<open>db_height\<close> behind
  \<open>height\<close>, and after the loop of \<open>backup_blocks\<close>, before \<open>backup_flush\<close>, the height
  is below \<open>db_height\<close>.
\<close>

theorem shadow_state_counterexample:
  "\<not> isl (flush demo_env demo_unflushed False) \<and>
   \<not> shadow_equal (projr (flush demo_env demo_unflushed False)) \<and>
   \<not> isl (backup_blocks_loop demo_env demo_advanced [[1, 2, 99]]) \<and>
   \<not> shadow_ordered (projr (backup_blocks_loop demo_env demo_advanced [[1, 2, 99]]))"
  by code_simp

text \<open>
  Claim C2, amended.  In forward processing the shadow copies are ordered,
  \<open>db_height \<le> fs_height \<le> height\<close> and \<open>db_tx_count \<le> fs_tx_count \<le> tx_count\<close>, with
  \<open>tip = db_tip\<close> whenever \<open>height = db_height\<close>: this holds after \<open>_on_dbs_opened\<close> and
  is kept by every successful \<open>advance_blocks\<close> and \<open>flush\<close>.  After every successful
  flush the filesystem copies equal the in-memory ones; after a successful \<open>flush(true)\<close>
  in forward processing, and after a successful \<open>backup_blocks\<close>, all three copies of each
  axis are equal and \<open>db_tip = tip\<close>.  A successful \<open>flush(false)\<close> leaves \<open>db_height\<close>,
  \<open>db_tx_count\<close> and \<open>db_tip\<close> as they were.  Inside \<open>backup_blocks\<close>, started from a
  flushed state, the loop over the blocks leaves the \<open>db\<close> and \<open>fs\<close> copies as they were
  and lowers \<open>height\<close> by the number of blocks, so below \<open>db_height\<close> and \<open>fs_height\<close>
  once a block is backed up, while \<open>tx_count\<close> is at most \<open>db_tx_count\<close>; the ordering
  is restored by \<open>backup_flush\<close>.
\<close>

theorem shadow_state_forward:
  "shadow_inv (on_dbs_opened s) \<and>
   (shadow_inv s \<longrightarrow>
      (\<forall>s'. advance_blocks E c s blocks = Inr s' \<longrightarrow> shadow_inv s')) \<and>
   (shadow_inv s \<longrightarrow>
      (\<forall>s'. flush E s b = Inr s' \<longrightarrow>
         shadow_inv s' \<and> fs_height s' = height s' \<and> fs_tx_count s' = tx_count s' \<and>
         (b \<longrightarrow> shadow_equal s'))) \<and>
   (\<forall>s'. backup_blocks E s raw_blocks = Inr s' \<longrightarrow> shadow_equal s') \<and>
   (\<forall>s'. flush E s b = Inr s' \<longrightarrow>
      fs_height s' = height s' \<and> fs_tx_count s' = tx_count s') \<and>
   (\<forall>s'. flush E s False = Inr s' \<longrightarrow>
      db_height s' = db_height s \<and> db_tx_count s' = db_tx_count s \<and> db_tip s' = db_tip s) \<and>
   (\<forall>s1. assert_flushed s \<and> backup_blocks_loop E s raw_blocks = Inr s1 \<longrightarrow>
      db_height s1 = db_height s \<and> db_tx_count s1 = db_tx_count s \<and> db_tip s1 = db_tip s \<and>
      fs_height s1 = fs_height s \<and> fs_tx_count s1 = fs_tx_count s \<and>
      height s1 = db_height s1 - int (length raw_blocks) \<and>
      height s1 = fs_height s1 - int (length raw_blocks) \<and>
      tx_count s1 \<le> db_tx_count s1 \<and>
      (raw_blocks \<noteq> [] \<longrightarrow> height s1 < db_height s1 \<and> \<not> shadow_ordered s1))"
proof -
  have 1: "shadow_inv (on_dbs_opened s)"
    by (simp add: on_dbs_opened_def shadow_inv_def shadow_ordered_def Let_def)
  have 2: "shadow_inv s'" if inv: "shadow_inv s" and a: "advance_blocks E c s blocks = Inr s'" for s'
  proof -
    from a obtain s1 h where l: "advance_blocks_loop E s (min_undo_height E (daemon_cached_height E))
                                   (height s) blocks = Inr (s1, h)"
      by (auto simp: advance_blocks_def Let_def split: sum.splits)
    from a l have ne: "blocks \<noteq> []"
      by (auto simp: advance_blocks_def Let_def split: if_splits)
    define s3 where "s3 = s1\<lparr>height := h, headers := headers s1 @ map header blocks,
                              tip := header_hash E (last (map header blocks))\<rparr>"
    from ne have "1 \<le> length blocks" by (cases blocks) auto
    then have "height s < height s + int (length blocks)" by linarith
    with advance_blocks_loop_shadow [OF l] have hlt: "height s < h" by simp
    from advance_blocks_loop_shadow [OF l]
    have f: "fs_height s1 = fs_height s" "db_height s1 = db_height s"
      "fs_tx_count s1 = fs_tx_count s" "db_tx_count s1 = db_tx_count s"
      "tx_count s \<le> tx_count s1"
      by blast+
    from inv have o: "db_height s \<le> fs_height s" "fs_height s \<le> height s"
      "db_tx_count s \<le> fs_tx_count s" "fs_tx_count s \<le> tx_count s"
      unfolding shadow_inv_def shadow_ordered_def by blast+
    have p: "height s3 = h" "fs_height s3 = fs_height s1" "db_height s3 = db_height s1"
      "fs_tx_count s3 = fs_tx_count s1" "db_tx_count s3 = db_tx_count s1"
      "tx_count s3 = tx_count s1"
      by (simp_all add: s3_def)
    have "db_height s3 \<le> fs_height s3" "fs_height s3 \<le> height s3"
      "db_tx_count s3 \<le> fs_tx_count s3" "fs_tx_count s3 \<le> tx_count s3"
      "height s3 \<noteq> db_height s3"
      unfolding p f using o hlt f(5) by linarith+
    then have i3: "shadow_inv s3"
      unfolding shadow_inv_def shadow_ordered_def by blast
    from a l ne have "flush E s3 True = Inr s' \<or> check_cache_size E s3 = Inr s' \<or> s' = s3"
      by (auto simp: advance_blocks_def Let_def s3_def split: if_splits)
    then show ?thesis
      using i3 flush_shadow [of s3 E _ s']
      by (auto simp: check_cache_size_run run_flush_def split: option.splits)
  qed
  have 4: "shadow_equal s'" if "backup_blocks E s raw_blocks = Inr s'" for s'
    using that
    by (auto simp: backup_blocks_def backup_flush_def Let_def flush_state_def flush_utxos_def
                   shadow_equal_def write_utxo_state_def
             split: if_splits sum.splits)
  have 5: "fs_height s' = height s' \<and> fs_tx_count s' = tx_count s'"
    if "flush E s b = Inr s'" for s'
    using flush_fs_equal [OF that] by simp
  have 6: "db_height s' = db_height s \<and> db_tx_count s' = db_tx_count s \<and> db_tip s' = db_tip s"
    if "flush E s False = Inr s'" for s'
    using flush_False_db [OF that] by simp
  have 7: "db_height s1 = db_height s \<and> db_tx_count s1 = db_tx_count s \<and> db_tip s1 = db_tip s \<and>
      fs_height s1 = fs_height s \<and> fs_tx_count s1 = fs_tx_count s \<and>
      height s1 = db_height s1 - int (length raw_blocks) \<and>
      height s1 = fs_height s1 - int (length raw_blocks) \<and>
      tx_count s1 \<le> db_tx_count s1 \<and>
      (raw_blocks \<noteq> [] \<longrightarrow> height s1 < db_height s1 \<and> \<not> shadow_ordered s1)"
    if fl: "assert_flushed s" and l: "backup_blocks_loop E s raw_blocks = Inr s1" for s1
  proof -
    from fl have e: "tx_count s = fs_tx_count s" "fs_tx_count s = db_tx_count s"
      "height s = fs_height s" "fs_height s = db_height s"
      unfolding assert_flushed_def by blast+
    from backup_blocks_loop_shadow [OF l]
    have f: "height s1 = height s - int (length raw_blocks)" "tx_count s1 \<le> tx_count s"
      "db_height s1 = db_height s" "db_tx_count s1 = db_tx_count s" "db_tip s1 = db_tip s"
      "fs_height s1 = fs_height s" "fs_tx_count s1 = fs_tx_count s"
      by blast+
    have a: "height s1 = db_height s1 - int (length raw_blocks)"
      "height s1 = fs_height s1 - int (length raw_blocks)" "tx_count s1 \<le> db_tx_count s1"
      using e f by linarith+
    have b: "height s1 < db_height s1 \<and> \<not> shadow_ordered s1" if "raw_blocks \<noteq> []"
    proof -
      from that have "0 < length raw_blocks" by simp
      with a(1,2) have "height s1 < db_height s1" "height s1 < fs_height s1" by linarith+
      then show ?thesis by (simp add: shadow_ordered_def)
    qed
    from f(3-7) a b show ?thesis by blast
  qed
  have 3: "shadow_inv s \<longrightarrow>
      (\<forall>s'. flush E s b = Inr s' \<longrightarrow>
         shadow_inv s' \<and> fs_height s' = height s' \<and> fs_tx_count s' = tx_count s' \<and>
         (b \<longrightarrow> shadow_equal s'))"
    using flush_shadow [of s E b] by blast
  from 1 2 3 4 5 6 7 show ?thesis by blast
qed



theorem shadow_state_forward_witness:
  "shadow_inv demo_advanced \<and> shadow_equal demo_advanced \<and>
   shadow_inv demo_unflushed \<and> \<not> shadow_equal demo_unflushed \<and>
   shadow_equal (projr (backup_blocks demo_env demo_advanced [[1, 2, 99]])) \<and>
   height (projr (flush demo_env demo_unflushed False)) = 1 \<and>
   fs_height (projr (flush demo_env demo_unflushed False)) = 1 \<and>
   db_height (projr (flush demo_env demo_unflushed False)) = 0 \<and>
   height (projr (backup_blocks_loop demo_env demo_advanced [[1, 2, 99]])) = 0 \<and>
   db_height (projr (backup_blocks_loop demo_env demo_advanced [[1, 2, 99]])) = 1 \<and>
   \<not> shadow_ordered (projr (backup_blocks_loop demo_env demo_advanced [[1, 2, 99]]))"
proof -
  have g: "shadow_inv demo_genesis" "shadow_inv (demo_genesis\<lparr>caught_up := False\<rparr>)" by code_simp+
  have a: "advance_blocks demo_env False demo_genesis [demo_block] = Inr demo_advanced"
    "advance_blocks demo_env False (demo_genesis\<lparr>caught_up := False\<rparr>) [demo_block] = Inr demo_unflushed"
    by code_simp+
  have f: "flush demo_env demo_advanced True = Inr demo_advanced" by code_simp
  have n: "\<not> shadow_equal demo_unflushed" by code_simp
  have "\<not> isl (backup_blocks demo_env demo_advanced [[1, 2, 99]])" by code_simp
  then obtain s' where b: "backup_blocks demo_env demo_advanced [[1, 2, 99]] = Inr s'"
    by (cases "backup_blocks demo_env demo_advanced [[1, 2, 99]]") auto
  have "\<not> isl (flush demo_env demo_unflushed False)" by code_simp
  then obtain sf where ff: "flush demo_env demo_unflushed False = Inr sf"
    by (cases "flush demo_env demo_unflushed False") auto
  have "\<not> isl (backup_blocks_loop demo_env demo_advanced [[1, 2, 99]])" by code_simp
  then obtain sl where l: "backup_blocks_loop demo_env demo_advanced [[1, 2, 99]] = Inr sl"
    by (cases "backup_blocks_loop demo_env demo_advanced [[1, 2, 99]]") auto
  have v: "height demo_unflushed = 1" "db_height demo_unflushed = 0"
    "db_height demo_advanced = 1" "assert_flushed demo_advanced" by code_simp+
  from shadow_state_forward [of demo_genesis demo_env False "[demo_block]"] g a
  have 1: "shadow_inv demo_advanced" by blast
  from shadow_state_forward [of "demo_genesis\<lparr>caught_up := False\<rparr>" demo_env False "[demo_block]"] g a
  have 2: "shadow_inv demo_unflushed" by blast
  from shadow_state_forward [of demo_advanced demo_env False "[demo_block]" True] 1 f
  have 3: "shadow_equal demo_advanced" by blast
  from shadow_state_forward [of demo_advanced demo_env False "[demo_block]" True "[[1, 2, 99]]"] b
  have 4: "shadow_equal s'" by blast
  from shadow_state_forward [of demo_unflushed demo_env False "[demo_block]" False] 2 ff
  have 5: "fs_height sf = height sf \<and> db_height sf = db_height demo_unflushed \<and> shadow_inv sf"
    by blast
  have "height sf = height demo_unflushed"
    using ff v(1,2) by (auto simp: flush_def Let_def split: if_splits sum.splits dest: fs_flush_shadow)
  with 5 v have 6: "height sf = 1 \<and> fs_height sf = 1 \<and> db_height sf = 0" by simp
  from shadow_state_forward [of demo_advanced demo_env False "[demo_block]" True "[[1, 2, 99]]"] l v(4)
  have "db_height sl = db_height demo_advanced \<and>
        height sl = db_height sl - int (length [[1, 2, 99 :: 8 word]]) \<and>
        ([[1, 2, 99 :: 8 word]] \<noteq> [] \<longrightarrow> height sl < db_height sl \<and> \<not> shadow_ordered sl)"
    by blast
  with v(3) have 7: "height sl = 0 \<and> db_height sl = 1 \<and> \<not> shadow_ordered sl" by simp
  from 1 2 3 4 6 7 n b ff l show ?thesis by simp
qed


section \<open>Properties of the reorganisation\<close>

lemma diff_pos_loop_eq:
  "diff_pos_loop k zs =
     (if length (takeWhile (\<lambda>(x, y). x = y) zs) < length zs
      then Some (k + length (takeWhile (\<lambda>(x, y). x = y) zs)) else None)"
  by (induction zs arbitrary: k) auto

lemma diff_pos_spec:
  "length hashes1 = length hashes \<Longrightarrow>
   diff_pos hashes hashes1 hashes2 = first_disagreement hashes1 hashes2"
  by (simp add: diff_pos_def diff_pos_loop_eq first_disagreement_def agree_len_def)

lemma fork_search_step:
  "fork_search F D X start count =
     (if 0 < start then
        (if 0 < first_disagreement (map X (F start count)) (D start count)
         then Some (start + int (first_disagreement (map X (F start count)) (D start count)))
         else fork_search F D X (start - min (count * 2) start) (min (count * 2) start))
      else Some start)"
  by (subst fork_search.simps) (simp add: Let_def diff_pos_spec)

lemma fork_point_search:
  "fork_point F D X start count r \<Longrightarrow> fork_search F D X start count = Some r"
proof (induction rule: fork_point.induct)
  case (at_genesis start count)
  then show ?case by (subst fork_search_step) simp
next
  case (found start n count)
  then show ?case by (subst fork_search_step) simp
next
  case (again start count r)
  then show ?case by (subst fork_search_step) simp
qed

lemma first_disagreement_le: "first_disagreement xs ys \<le> length xs"
  by (simp add: first_disagreement_def)

lemma fork_search_total:
  "1 \<le> count \<Longrightarrow>
   \<exists>r. fork_point F D X start count r \<and> (0 \<le> start \<longrightarrow> 0 \<le> r) \<and>
       ((\<forall>s c. length (F s c) \<le> nat c) \<longrightarrow> r \<le> start + count) \<and>
       ((\<forall>s c. first_disagreement (map X (F s c)) (D s c) = 0) \<longrightarrow> 0 \<le> start \<longrightarrow> r = 0)"
proof (induction "nat start" arbitrary: start count rule: less_induct)
  case less
  define L where "L = (\<forall>s c. length (F s c) \<le> nat c)"
  define Z where "Z = (\<forall>s c. first_disagreement (map X (F s c)) (D s c) = 0)"
  have goal: "\<exists>r. fork_point F D X start count r \<and> (0 \<le> start \<longrightarrow> 0 \<le> r) \<and>
       (L \<longrightarrow> r \<le> start + count) \<and> (Z \<longrightarrow> 0 \<le> start \<longrightarrow> r = 0)"
  proof (cases "0 < start")
    case False
    then have 1: "fork_point F D X start count start" by (simp add: fork_point.at_genesis)
    have 2: "0 \<le> start \<longrightarrow> 0 \<le> start" by simp
    have 3: "L \<longrightarrow> start \<le> start + count" using less.prems by simp
    have 4: "Z \<longrightarrow> 0 \<le> start \<longrightarrow> start = 0" using False by simp
    from 1 2 3 4 show ?thesis by blast
  next
    case pos: True
    define n where "n = first_disagreement (map X (F start count)) (D start count)"
    show ?thesis
    proof (cases "0 < n")
      case True
      have 1: "fork_point F D X start count (start + int n)"
        using pos True by (intro fork_point.found) (simp_all add: n_def)
      have 2: "0 \<le> start \<longrightarrow> 0 \<le> start + int n" by simp
      have "n \<le> length (F start count)"
        using first_disagreement_le [of "map X (F start count)" "D start count"]
        by (simp add: n_def)
      note nl = this
      have 3: "L \<longrightarrow> start + int n \<le> start + count"
      proof
        assume L
        then have "length (F start count) \<le> nat count" unfolding L_def by blast
        with nl have "n \<le> nat count" by simp
        then have "int n \<le> count" using less.prems by linarith
        then show "start + int n \<le> start + count" by simp
      qed
      have 4: "Z \<longrightarrow> 0 \<le> start \<longrightarrow> start + int n = 0"
      proof
        assume Z
        then have "n = 0" unfolding Z_def n_def by blast
        with True show "0 \<le> start \<longrightarrow> start + int n = 0" by simp
      qed
      from 1 2 3 4 show ?thesis by blast
    next
      case False
      define c where "c = min (count * 2) start"
      have c1: "1 \<le> c" using pos less.prems by (simp add: c_def)
      have cs: "c \<le> start" by (simp add: c_def)
      have "nat (start - c) < nat start" using pos c1 by simp
      from less.hyps [OF this c1] obtain r where
        r: "fork_point F D X (start - c) c r"
        and b: "0 \<le> start - c \<longrightarrow> 0 \<le> r"
        and u: "L \<longrightarrow> r \<le> start - c + c"
        and z: "Z \<longrightarrow> 0 \<le> start - c \<longrightarrow> r = 0"
        unfolding L_def Z_def by blast
      have n0: "first_disagreement (map X (F start count)) (D start count) = 0"
        using False by (simp add: n_def)
      have 1: "fork_point F D X start count r"
        using pos n0 r unfolding c_def by (rule fork_point.again)
      have 2: "0 \<le> start \<longrightarrow> 0 \<le> r" using b cs by simp
      have 3: "L \<longrightarrow> r \<le> start + count" using u less.prems by auto
      have 4: "Z \<longrightarrow> 0 \<le> start \<longrightarrow> r = 0" using z cs by simp
      from 1 2 3 4 show ?thesis by blast
    qed
  qed
  then show ?case unfolding L_def Z_def .
qed

lemma length_fs_block_hashes_le: "length (fs_block_hashes E s start count) \<le> nat count"
  by (simp add: fs_block_hashes_def)

lemma length_fs_block_hashes:
  "0 \<le> start \<Longrightarrow> 0 \<le> count \<Longrightarrow> start + count \<le> int (length (headers_file s)) \<Longrightarrow>
   length (fs_block_hashes E s start count) = nat count"
  by (simp add: fs_block_hashes_def)

text \<open>
  Claim C7.  With \<open>count = None\<close>, \<open>reorg_hashes\<close> returns: its loop ends, and the
  result is \<open>(fork, local hashes from fork, asked for height - fork + 1 of them)\<close> where
  \<open>fork\<close> is the one height the specification's search reaches from \<open>start = height - 1\<close>,
  \<open>count = 1\<close>.  The fork is not negative for a height of at least 1; it is at most the
  height when the local source never yields more hashes than it is asked for; and it is 0
  when no round finds an agreeing first hash.  With the local hashes read from the headers
  file (\<open>fs_block_hashes\<close>) holding the headers of the heights 0 to \<open>height\<close>, the fork is
  between 0 and the height and the hashes returned are exactly \<open>height - fork + 1\<close>, those
  of the heights \<open>fork\<close> to \<open>height\<close>.
\<close>

theorem reorg_hashes_fork_search:
  "\<exists>fork. reorg_hashes F D X h None = Some (fork, F fork ((h - fork) + 1)) \<and>
      fork_point F D X (h - 1) 1 fork \<and>
      (\<forall>r. fork_point F D X (h - 1) 1 r \<longrightarrow> r = fork) \<and>
      (1 \<le> h \<longrightarrow> 0 \<le> fork) \<and>
      ((\<forall>s c. length (F s c) \<le> nat c) \<longrightarrow> 1 \<le> h \<longrightarrow> fork \<le> h) \<and>
      ((\<forall>s c. first_disagreement (map X (F s c)) (D s c) = 0) \<longrightarrow> 1 \<le> h \<longrightarrow> fork = 0) \<and>
      (\<forall>E s. F = fs_block_hashes E s \<and> 1 \<le> h \<and> h < int (length (headers_file s)) \<longrightarrow>
         0 \<le> fork \<and> fork \<le> h \<and>
         length (F fork ((h - fork) + 1)) = nat ((h - fork) + 1) \<and>
         F fork ((h - fork) + 1) =
           map (header_hash E) (drop (nat fork) (take (nat h + 1) (headers_file s))))"
proof -
  have "(1::int) \<le> 1" by simp
  from fork_search_total [OF this, of F D X "h - 1"] obtain r where
    r: "fork_point F D X (h - 1) 1 r" and b: "0 \<le> h - 1 \<longrightarrow> 0 \<le> r"
    and u: "(\<forall>s c. length (F s c) \<le> nat c) \<longrightarrow> r \<le> h - 1 + 1"
    and z: "(\<forall>s c. first_disagreement (map X (F s c)) (D s c) = 0) \<longrightarrow> 0 \<le> h - 1 \<longrightarrow> r = 0"
    by blast
  from r have s: "fork_search F D X (h - 1) 1 = Some r" by (rule fork_point_search)
  have 1: "reorg_hashes F D X h None = Some (r, F r ((h - r) + 1))"
    by (simp add: reorg_hashes_def s)
  have 2: "\<forall>r'. fork_point F D X (h - 1) 1 r' \<longrightarrow> r' = r"
  proof (intro allI impI)
    fix r' assume "fork_point F D X (h - 1) 1 r'"
    then have "fork_search F D X (h - 1) 1 = Some r'" by (rule fork_point_search)
    with s show "r' = r" by simp
  qed
  have 3: "1 \<le> h \<longrightarrow> 0 \<le> r" using b by simp
  have 4: "(\<forall>s c. length (F s c) \<le> nat c) \<longrightarrow> 1 \<le> h \<longrightarrow> r \<le> h"
    using u by simp
  have 5: "(\<forall>s c. first_disagreement (map X (F s c)) (D s c) = 0) \<longrightarrow> 1 \<le> h \<longrightarrow> r = 0"
    using z by simp
  have 6: "0 \<le> r \<and> r \<le> h \<and>
         length (F r ((h - r) + 1)) = nat ((h - r) + 1) \<and>
         F r ((h - r) + 1) =
           map (header_hash E) (drop (nat r) (take (nat h + 1) (headers_file s)))"
    if F: "F = fs_block_hashes E s" and h: "1 \<le> h" "h < int (length (headers_file s))" for E s
  proof -
    have "\<forall>st c. length (F st c) \<le> nat c" unfolding F by (simp add: length_fs_block_hashes_le)
    with 4 h have le: "r \<le> h" by blast
    from 3 h have ge: "0 \<le> r" by blast
    have l: "length (F r ((h - r) + 1)) = nat ((h - r) + 1)"
      unfolding F using ge le h by (intro length_fs_block_hashes) linarith+
    have "nat (h - r + 1) = nat h + 1 - nat r" using ge le by linarith
    then have "take (nat (h - r + 1)) (drop (nat r) (headers_file s)) =
          drop (nat r) (take (nat h + 1) (headers_file s))"
      by (simp only: drop_take)
    then have "F r ((h - r) + 1) =
           map (header_hash E) (drop (nat r) (take (nat h + 1) (headers_file s)))"
      unfolding F by (simp add: fs_block_hashes_def)
    with ge le l show ?thesis by blast
  qed
  from 1 r 2 3 4 5 6 show ?thesis by blast
qed

theorem reorg_hashes_fork_search_witness:
  "reorg_hashes demo_local demo_daemon_hashes demo_hex 4 None = Some (3, [[4], [5]]) \<and>
   fork_point demo_local demo_daemon_hashes demo_hex (4 - 1) 1 3 \<and>
   (3::int) \<le> 4 \<and> length [[4], [5 :: 8 word]] = nat ((4 - 3) + 1) \<and>
   [[4], [5]] = map (header_hash demo_env)
                  (drop (nat 3) (take (nat 4 + 1) (headers_file reorg_state))) \<and>
   reorg_hashes demo_local (\<lambda>s c. [''other'']) (\<lambda>b. ''local'') 4 None =
     Some (0, [[1], [2], [3], [4], [5]])"
proof -
  have e: "reorg_hashes demo_local demo_daemon_hashes demo_hex 4 None = Some (3, [[4], [5]])"
    by code_simp
  have d: "demo_local = fs_block_hashes demo_env reorg_state \<and> (1::int) \<le> 4 \<and>
           4 < int (length (headers_file reorg_state))"
    by (simp add: demo_local_def reorg_state_def empty_bp_def)
  from reorg_hashes_fork_search [of demo_local demo_daemon_hashes demo_hex 4] e d
  have a: "fork_point demo_local demo_daemon_hashes demo_hex (4 - 1) 1 3 \<and>
       length (demo_local 3 ((4 - 3) + 1)) = nat ((4 - 3) + 1) \<and>
       demo_local 3 ((4 - 3) + 1) = map (header_hash demo_env)
                  (drop (nat 3) (take (nat 4 + 1) (headers_file reorg_state)))"
    by auto
  have v: "demo_local 3 ((4 - 3) + 1) = [[4], [5]]" by code_simp
  have l: "\<forall>s c. length (demo_local s c) \<le> nat c"
    by (simp add: demo_local_def length_fs_block_hashes_le)
  have z: "\<forall>s c. first_disagreement (map (\<lambda>b. ''local'') (demo_local s c)) [''other''] = 0"
  proof (intro allI)
    fix s c show "first_disagreement (map (\<lambda>b. ''local'') (demo_local s c)) [''other''] = 0"
      by (cases "demo_local s c") (simp_all add: first_disagreement_def agree_len_def)
  qed
  from reorg_hashes_fork_search [of demo_local "\<lambda>s c. [''other'']" "\<lambda>b. ''local''" 4] z
  have "reorg_hashes demo_local (\<lambda>s c. [''other'']) (\<lambda>b. ''local'') 4 None =
          Some (0, demo_local 0 ((4 - 0) + 1))" by auto
  moreover have "demo_local 0 ((4 - 0) + 1) = [[1], [2], [3], [4], [5]]" by code_simp
  ultimately have b: "reorg_hashes demo_local (\<lambda>s c. [''other'']) (\<lambda>b. ''local'') 4 None =
     Some (0, [[1], [2], [3], [4], [5]])" by simp
  from a have a1: "fork_point demo_local demo_daemon_hashes demo_hex (4 - 1) 1 3" by blast
  from a have a2: "[[4], [5]] = map (header_hash demo_env)
                  (drop (nat 3) (take (nat 4 + 1) (headers_file reorg_state)))"
    unfolding v by blast
  have a3: "(3::int) \<le> 4" "length [[4], [5 :: 8 word]] = nat ((4 - 3) + 1)" by simp_all
  show ?thesis by (intro conjI) (rule e a1 a2 a3 b)+
qed

text \<open>
  Claim C8 fails on the code for a real reorg of more than one block: \<open>last\<close> is set
  to \<open>start\<close>, the lowest height to undo, so the archive is read at heights 3 and 2
  for the hashes of heights 4 and 3, and the backup of the block read for the tip fails.
  The simulated reorg of the same two blocks reads heights 4 and 3 and succeeds.
\<close>

theorem reorg_chain_reads_from_start:
  "reorg_hashes demo_local demo_daemon_hashes demo_hex 4 None = Some (3, [[4], [5]]) \<and>
   raw_block_heights 3 [demo_hex [5], demo_hex [4]] = [3, 2] \<and>
   get_raw_blocks demo_daemon_blocks reorg_state 3 [demo_hex [5], demo_hex [4]] =
     [[3, 4, 0], [2, 3, 0]] \<and>
   reorg_chain demo_env demo_daemon_hashes demo_hex demo_daemon_blocks reorg_state None =
     Some (Inl (ChainError BackupNotTip, reorg_state)) \<and>
   get_raw_blocks demo_daemon_blocks reorg_state 4 [demo_hex [5], demo_hex [4]] =
     [[4, 5, 0], [3, 4, 0]] \<and>
   map_option (map_sum fst height)
     (reorg_chain demo_env demo_daemon_hashes demo_hex demo_daemon_blocks reorg_state (Some 2)) =
     Some (Inr 2)"
  by code_simp


section \<open>The round trip of advancing and backing up\<close>

subsection \<open>Keys and values\<close>

lemma norm_index_neg: "norm_index xs (- int n) = length xs - n" if "0 < n"
proof -
  have "nat (max (- int n + int (length xs)) 0) = length xs - n" by linarith
  with that show ?thesis by (simp add: norm_index_def)
qed

lemma slices_value:
  assumes "length v = 23"
  shows "slice_to v (- 12) = take 11 v" "py_slice v (- 12) (- 8) = take 4 (drop 11 v)"
    "slice_from v (- 8) = drop 15 v"
  using assms norm_index_neg [of 12 v] norm_index_neg [of 8 v]
  by (simp_all add: slice_to_def py_slice_def slice_from_def drop_take)

lemma slices_key:
  assumes "length k = 34"
  shows "slice_from k (- 2) = drop 32 k"
  using assms norm_index_neg [of 2 k] by (simp add: slice_from_def)

lemma slices_hkey:
  assumes "length hk = 11"
  shows "slice_from hk (- 4) = drop 7 hk" "slice_from hk (- 6) = drop 5 hk"
  using assms norm_index_neg [of 4 hk] norm_index_neg [of 6 hk] by (simp_all add: slice_from_def)

lemma value_split:
  "length v = 23 \<Longrightarrow> take 11 v @ take 4 (drop 11 v) @ drop 15 v = v"
proof -
  assume "length v = 23"
  have "take 4 (drop 11 v) @ drop 15 v = drop 11 v"
    using append_take_drop_id [of 4 "drop 11 v"] by simp
  then show ?thesis by simp
qed

lemma le_int_le_bytes: "0 \<le> n \<Longrightarrow> le_int (le_bytes k n) = n mod 256 ^ k"
proof (induction k arbitrary: n)
  case 0
  then show ?case by simp
next
  case (Suc k)
  have "uint (word_of_int n :: 8 word) = n mod 256" by (simp add: uint_word_of_int)
  moreover have "le_int (le_bytes k (n div 256)) = (n div 256) mod 256 ^ k"
    using Suc.prems by (intro Suc.IH) simp
  moreover have "n mod 256 + 256 * ((n div 256) mod 256 ^ k) = n mod (256 * 256 ^ k)"
    using zmod_zmult2_eq [of "256 ^ k" n 256] by simp
  ultimately show ?case by simp
qed

lemma le_int_pack_I: "pack_I n = Some b \<Longrightarrow> le_int b = n \<and> length b = 4"
  by (auto simp: pack_I_def le_int_le_bytes split: if_splits)

lemma le_int_pack_H: "pack_H n = Some b \<Longrightarrow> le_int b = n \<and> length b = 2"
  by (auto simp: pack_H_def le_int_le_bytes split: if_splits)

lemma length_pack_Q: "pack_Q n = Some b \<Longrightarrow> length b = 8"
  by (auto simp: pack_Q_def split: if_splits)

lemma pack_H_inj: "pack_H a = Some x \<Longrightarrow> pack_H b = Some x \<Longrightarrow> a = b"
  using le_int_pack_H by metis

lemma hkey_facts:
  assumes "length k = 34" "length v = 23"
  shows "length (hkey_of k v) = 11" "drop 7 (hkey_of k v) = take 4 (drop 11 v)"
    "take 2 (drop 5 (hkey_of k v)) = drop 32 k" "prefix [104] (hkey_of k v)"
    "take 4 (drop 1 (hkey_of k v)) = take 4 k"
    "le_int (drop 7 (hkey_of k v)) = ord_of v"
  using assms by (simp_all add: hkey_of_def ord_of_def)

lemma ukey_facts:
  assumes "length k = 34" "length v = 23"
  shows "length (ukey_of k v) = 18" "drop 14 (ukey_of k v) = take 4 (drop 11 v)"
    "take 2 (drop 12 (ukey_of k v)) = drop 32 k" "prefix [117] (ukey_of k v)"
    "take 11 (drop 1 (ukey_of k v)) = take 11 v"
  using assms by (simp_all add: ukey_of_def)

lemma hkey_ukey_neq: "hkey_of k v \<noteq> ukey_of k' v'"
  by (simp add: hkey_of_def ukey_of_def)

lemma key_from_parts:
  assumes "length k = 34" "length k' = 34" "take 32 k = take 32 k'" "drop 32 k = drop 32 k'"
  shows "k = k'"
  using assms by (metis append_take_drop_id)

lemma inv_entry:
  assumes "utxo_inv H s U" "U k = Some v"
  shows "length k = 34" "length v = 23" "H (ord_of v) = Some (take 32 k)"
  using assms unfolding utxo_inv_def by blast+

lemma hkey_inj:
  assumes inv: "utxo_inv H s U" and 1: "U k = Some v" and 2: "U k' = Some v'"
    and eq: "hkey_of k v = hkey_of k' v'"
  shows "k = k'"
proof -
  note a = inv_entry [OF inv 1] and b = inv_entry [OF inv 2]
  have "ord_of v = ord_of v'"
    using hkey_facts(6) [OF a(1,2)] hkey_facts(6) [OF b(1,2)] eq by simp
  with a(3) b(3) have t: "take 32 k = take 32 k'" by simp
  have "drop 32 k = drop 32 k'"
    using hkey_facts(3) [OF a(1,2)] hkey_facts(3) [OF b(1,2)] eq by simp
  with t a(1) b(1) show ?thesis by (metis key_from_parts)
qed

lemma ukey_inj:
  assumes inv: "utxo_inv H s U" and 1: "U k = Some v" and 2: "U k' = Some v'"
    and eq: "ukey_of k v = ukey_of k' v'"
  shows "k = k'"
proof -
  note a = inv_entry [OF inv 1] and b = inv_entry [OF inv 2]
  have "take 4 (drop 11 v) = take 4 (drop 11 v')"
    using ukey_facts(2) [OF a(1,2)] ukey_facts(2) [OF b(1,2)] eq by simp
  then have "ord_of v = ord_of v'" by (simp add: ord_of_def)
  with a(3) b(3) have t: "take 32 k = take 32 k'" by simp
  have "drop 32 k = drop 32 k'"
    using ukey_facts(3) [OF a(1,2)] ukey_facts(3) [OF b(1,2)] eq by simp
  with t a(1) b(1) show ?thesis by (metis key_from_parts)
qed


subsection \<open>The representation invariant\<close>

lemma utxo_invI:
  assumes "distinct (map fst (utxo_cache s))"
    and "\<And>k v. U k = Some v \<Longrightarrow> length k = 34 \<and> length v = 23 \<and> H (ord_of v) = Some (take 32 k)"
    and "\<And>k v. map_of (utxo_cache s) k = Some v \<Longrightarrow> U k = Some v"
    and "\<And>k v. U k = Some v \<Longrightarrow> map_of (utxo_cache s) k = None \<Longrightarrow>
         map_of (utxo_db s) (hkey_of k v) = Some (take 11 v) \<and>
         map_of (utxo_db s) (ukey_of k v) = Some (drop 15 v) \<and>
         hkey_of k v \<notin> set (db_deletes s) \<and> ukey_of k v \<notin> set (db_deletes s)"
    and "\<And>hk hx. map_of (utxo_db s) hk = Some hx \<Longrightarrow> prefix [104] hk \<Longrightarrow>
         length hk = 11 \<and> ordinal_hash s hk = H (le_int (drop 7 hk)) \<and>
         ((\<exists>k v. U k = Some v \<and> map_of (utxo_cache s) k = None \<and> hk = hkey_of k v) \<or>
          (hk \<in> set (db_deletes s) \<and>
           (\<exists>t. H (le_int (drop 7 hk)) = Some t \<and> \<not> live U s (t @ take 2 (drop 5 hk)))))"
    and "\<And>uk a. map_of (utxo_db s) uk = Some a \<Longrightarrow> prefix [117] uk \<Longrightarrow>
         (\<exists>k v. U k = Some v \<and> map_of (utxo_cache s) k = None \<and> uk = ukey_of k v) \<or>
         uk \<in> set (db_deletes s)"
  shows "utxo_inv H s U"
  unfolding utxo_inv_def using assms by blast

lemma inv_distinct: "utxo_inv H s U \<Longrightarrow> distinct (map fst (utxo_cache s))"
  unfolding utxo_inv_def by blast

lemma inv_cache: "utxo_inv H s U \<Longrightarrow> map_of (utxo_cache s) k = Some v \<Longrightarrow> U k = Some v"
  unfolding utxo_inv_def by blast

lemma inv_rows:
  assumes "utxo_inv H s U" "U k = Some v" "map_of (utxo_cache s) k = None"
  shows "map_of (utxo_db s) (hkey_of k v) = Some (take 11 v)"
    "map_of (utxo_db s) (ukey_of k v) = Some (drop 15 v)"
    "hkey_of k v \<notin> set (db_deletes s)" "ukey_of k v \<notin> set (db_deletes s)"
  using assms unfolding utxo_inv_def by blast+

lemma inv_hrow:
  assumes "utxo_inv H s U" "map_of (utxo_db s) hk = Some hx" "prefix [104] hk"
  shows "length hk = 11" "ordinal_hash s hk = H (le_int (drop 7 hk))"
    "(\<exists>k v. U k = Some v \<and> map_of (utxo_cache s) k = None \<and> hk = hkey_of k v) \<or>
     (hk \<in> set (db_deletes s) \<and>
      (\<exists>t. H (le_int (drop 7 hk)) = Some t \<and> \<not> live U s (t @ take 2 (drop 5 hk))))"
  using assms unfolding utxo_inv_def by blast+

lemma inv_urow:
  assumes "utxo_inv H s U" "map_of (utxo_db s) uk = Some a" "prefix [117] uk"
  shows "(\<exists>k v. U k = Some v \<and> map_of (utxo_cache s) k = None \<and> uk = ukey_of k v) \<or>
         uk \<in> set (db_deletes s)"
  using assms unfolding utxo_inv_def by blast

lemma inv_hrow_hash:
  assumes inv: "utxo_inv H s U" and r: "map_of (utxo_db s) hk = Some hx" and p: "prefix [104] hk"
  shows "\<exists>t. ordinal_hash s hk = Some t \<and> H (le_int (drop 7 hk)) = Some t \<and>
             (live U s (t @ take 2 (drop 5 hk)) \<longrightarrow>
                hk = hkey_of (t @ take 2 (drop 5 hk)) (the (U (t @ take 2 (drop 5 hk)))))"
proof -
  note h = inv_hrow [OF inv r p]
  from h(3) show ?thesis
  proof
    assume "\<exists>k v. U k = Some v \<and> map_of (utxo_cache s) k = None \<and> hk = hkey_of k v"
    then obtain k v where kv: "U k = Some v" "map_of (utxo_cache s) k = None" "hk = hkey_of k v"
      by blast
    note e = inv_entry [OF inv kv(1)]
    have o: "H (le_int (drop 7 hk)) = Some (take 32 k)"
      using hkey_facts(6) [OF e(1,2)] e(3) kv(3) by simp
    have "take 32 k @ take 2 (drop 5 hk) = k"
      using hkey_facts(3) [OF e(1,2)] kv(3) by simp
    with o h(2) kv show ?thesis by simp
  next
    assume "hk \<in> set (db_deletes s) \<and>
      (\<exists>t. H (le_int (drop 7 hk)) = Some t \<and> \<not> live U s (t @ take 2 (drop 5 hk)))"
    with h(2) show ?thesis by auto
  qed
qed

lemma inv_cache_delete:
  assumes inv: "utxo_inv H s U" and c: "map_of (utxo_cache s) k \<noteq> None"
  shows "utxo_inv H (s\<lparr>utxo_cache := AList.delete k (utxo_cache s)\<rparr>) (U(k := None))"
proof (rule utxo_invI)
  let ?s = "s\<lparr>utxo_cache := AList.delete k (utxo_cache s)\<rparr>"
  let ?U = "U(k := None)"
  have m: "map_of (AList.delete k (utxo_cache s)) k' =
           (if k' = k then None else map_of (utxo_cache s) k')" for k'
    by (simp add: delete_conv')
  show "distinct (map fst (utxo_cache ?s))"
    using inv_distinct [OF inv] by (simp add: distinct_delete)
  show "length k' = 34 \<and> length v = 23 \<and> H (ord_of v) = Some (take 32 k')" if "?U k' = Some v" for k' v
    using that inv_entry [OF inv, of k' v] by (auto split: if_splits)
  show "?U k' = Some v" if "map_of (utxo_cache ?s) k' = Some v" for k' v
    using that inv_cache [OF inv, of k' v] by (auto simp: m split: if_splits)
  show "map_of (utxo_db ?s) (hkey_of k' v) = Some (take 11 v) \<and>
         map_of (utxo_db ?s) (ukey_of k' v) = Some (drop 15 v) \<and>
         hkey_of k' v \<notin> set (db_deletes ?s) \<and> ukey_of k' v \<notin> set (db_deletes ?s)"
    if "?U k' = Some v" "map_of (utxo_cache ?s) k' = None" for k' v
    using that inv_rows [OF inv, of k' v] by (auto simp: m split: if_splits)
  have lv: "live ?U ?s k' \<Longrightarrow> live U s k'" for k'
    by (auto simp: live_def m split: if_splits)
  show "length hk = 11 \<and> ordinal_hash ?s hk = H (le_int (drop 7 hk)) \<and>
         ((\<exists>k' v. ?U k' = Some v \<and> map_of (utxo_cache ?s) k' = None \<and> hk = hkey_of k' v) \<or>
          (hk \<in> set (db_deletes ?s) \<and>
           (\<exists>t. H (le_int (drop 7 hk)) = Some t \<and> \<not> live ?U ?s (t @ take 2 (drop 5 hk)))))"
    if r: "map_of (utxo_db ?s) hk = Some hx" and p: "prefix [104] hk" for hk hx
  proof -
    from r have r': "map_of (utxo_db s) hk = Some hx" by simp
    note h = inv_hrow [OF inv r' p]
    from h(3) have "(\<exists>k' v. ?U k' = Some v \<and> map_of (utxo_cache ?s) k' = None \<and> hk = hkey_of k' v) \<or>
          (hk \<in> set (db_deletes ?s) \<and>
           (\<exists>t. H (le_int (drop 7 hk)) = Some t \<and> \<not> live ?U ?s (t @ take 2 (drop 5 hk))))"
    proof
      assume "\<exists>k v. U k = Some v \<and> map_of (utxo_cache s) k = None \<and> hk = hkey_of k v"
      then obtain k' v where kv: "U k' = Some v" "map_of (utxo_cache s) k' = None" "hk = hkey_of k' v"
        by blast
      with c have "k' \<noteq> k" by auto
      with kv have "?U k' = Some v \<and> map_of (utxo_cache ?s) k' = None \<and> hk = hkey_of k' v"
        by (simp add: m)
      then show ?thesis by blast
    next
      assume "hk \<in> set (db_deletes s) \<and>
        (\<exists>t. H (le_int (drop 7 hk)) = Some t \<and> \<not> live U s (t @ take 2 (drop 5 hk)))"
      then show ?thesis using lv by auto
    qed
    with h(1,2) show ?thesis by simp
  qed
  show "(\<exists>k' v. ?U k' = Some v \<and> map_of (utxo_cache ?s) k' = None \<and> uk = ukey_of k' v) \<or>
         uk \<in> set (db_deletes ?s)"
    if r: "map_of (utxo_db ?s) uk = Some a" and p: "prefix [117] uk" for uk a
  proof -
    from r have r': "map_of (utxo_db s) uk = Some a" by simp
    from inv_urow [OF inv r' p] show ?thesis
    proof
      assume "\<exists>k v. U k = Some v \<and> map_of (utxo_cache s) k = None \<and> uk = ukey_of k v"
      then obtain k' v where kv: "U k' = Some v" "map_of (utxo_cache s) k' = None" "uk = ukey_of k' v"
        by blast
      with c have "k' \<noteq> k" by auto
      with kv have "?U k' = Some v \<and> map_of (utxo_cache ?s) k' = None \<and> uk = ukey_of k' v"
        by (simp add: m)
      then show ?thesis by blast
    next
      assume "uk \<in> set (db_deletes s)"
      then show ?thesis by simp
    qed
  qed
qed


lemma inv_db_spend:
  assumes inv: "utxo_inv H s U" and u: "U k = Some v" and c: "map_of (utxo_cache s) k = None"
  shows "utxo_inv H (s\<lparr>db_deletes := db_deletes s @ [hkey_of k v, ukey_of k v]\<rparr>) (U(k := None))"
proof (rule utxo_invI)
  let ?s = "s\<lparr>db_deletes := db_deletes s @ [hkey_of k v, ukey_of k v]\<rparr>"
  let ?U = "U(k := None)"
  note e = inv_entry [OF inv u]
  show "distinct (map fst (utxo_cache ?s))"
    using inv_distinct [OF inv] by simp
  show "length k' = 34 \<and> length v' = 23 \<and> H (ord_of v') = Some (take 32 k')" if "?U k' = Some v'" for k' v'
    using that inv_entry [OF inv, of k' v'] by (auto split: if_splits)
  show "?U k' = Some v'" if "map_of (utxo_cache ?s) k' = Some v'" for k' v'
    using that inv_cache [OF inv, of k' v'] c by (auto split: if_splits)
  show "map_of (utxo_db ?s) (hkey_of k' v') = Some (take 11 v') \<and>
         map_of (utxo_db ?s) (ukey_of k' v') = Some (drop 15 v') \<and>
         hkey_of k' v' \<notin> set (db_deletes ?s) \<and> ukey_of k' v' \<notin> set (db_deletes ?s)"
    if a: "?U k' = Some v'" and b: "map_of (utxo_cache ?s) k' = None" for k' v'
  proof -
    from a have ne: "k' \<noteq> k" and u': "U k' = Some v'" by (auto split: if_splits)
    from b have c': "map_of (utxo_cache s) k' = None" by simp
    note r = inv_rows [OF inv u' c']
    have "hkey_of k' v' \<noteq> hkey_of k v" using hkey_inj [OF inv u' u] ne by blast
    moreover have "ukey_of k' v' \<noteq> ukey_of k v" using ukey_inj [OF inv u' u] ne by blast
    moreover have "hkey_of k' v' \<noteq> ukey_of k v" "ukey_of k' v' \<noteq> hkey_of k v"
      using hkey_ukey_neq by metis+
    ultimately show ?thesis using r by simp
  qed
  have lv: "live ?U ?s k' \<Longrightarrow> live U s k'" for k'
    by (auto simp: live_def split: if_splits)
  show "length hk = 11 \<and> ordinal_hash ?s hk = H (le_int (drop 7 hk)) \<and>
         ((\<exists>k' v'. ?U k' = Some v' \<and> map_of (utxo_cache ?s) k' = None \<and> hk = hkey_of k' v') \<or>
          (hk \<in> set (db_deletes ?s) \<and>
           (\<exists>t. H (le_int (drop 7 hk)) = Some t \<and> \<not> live ?U ?s (t @ take 2 (drop 5 hk)))))"
    if r: "map_of (utxo_db ?s) hk = Some hx" and p: "prefix [104] hk" for hk hx
  proof -
    from r have r': "map_of (utxo_db s) hk = Some hx" by simp
    note h = inv_hrow [OF inv r' p]
    from h(3) have "(\<exists>k' v'. ?U k' = Some v' \<and> map_of (utxo_cache ?s) k' = None \<and> hk = hkey_of k' v') \<or>
          (hk \<in> set (db_deletes ?s) \<and>
           (\<exists>t. H (le_int (drop 7 hk)) = Some t \<and> \<not> live ?U ?s (t @ take 2 (drop 5 hk))))"
    proof
      assume "\<exists>k v. U k = Some v \<and> map_of (utxo_cache s) k = None \<and> hk = hkey_of k v"
      then obtain k' v' where kv: "U k' = Some v'" "map_of (utxo_cache s) k' = None"
        "hk = hkey_of k' v'" by blast
      show ?thesis
      proof (cases "k' = k")
        case True
        with kv u have hk: "hk = hkey_of k v" by simp
        have "H (le_int (drop 7 hk)) = Some (take 32 k)"
          using hkey_facts(6) [OF e(1,2)] e(3) hk by simp
        moreover have "take 32 k @ take 2 (drop 5 hk) = k"
          using hkey_facts(3) [OF e(1,2)] hk by simp
        then have "\<not> live ?U ?s (take 32 k @ take 2 (drop 5 hk))" by (simp add: live_def)
        moreover have "hk \<in> set (db_deletes ?s)" using hk by simp
        ultimately show ?thesis by blast
      next
        case False
        with kv have "?U k' = Some v' \<and> map_of (utxo_cache ?s) k' = None \<and> hk = hkey_of k' v'"
          by simp
        then show ?thesis by blast
      qed
    next
      assume "hk \<in> set (db_deletes s) \<and>
        (\<exists>t. H (le_int (drop 7 hk)) = Some t \<and> \<not> live U s (t @ take 2 (drop 5 hk)))"
      then show ?thesis using lv by auto
    qed
    moreover have "ordinal_hash ?s hk = ordinal_hash s hk" by simp
    ultimately show ?thesis using h(1,2) by simp
  qed
  show "(\<exists>k' v'. ?U k' = Some v' \<and> map_of (utxo_cache ?s) k' = None \<and> uk = ukey_of k' v') \<or>
         uk \<in> set (db_deletes ?s)"
    if r: "map_of (utxo_db ?s) uk = Some a" and p: "prefix [117] uk" for uk a
  proof -
    from r have r': "map_of (utxo_db s) uk = Some a" by simp
    from inv_urow [OF inv r' p] show ?thesis
    proof
      assume "\<exists>k v. U k = Some v \<and> map_of (utxo_cache s) k = None \<and> uk = ukey_of k v"
      then obtain k' v' where kv: "U k' = Some v'" "map_of (utxo_cache s) k' = None"
        "uk = ukey_of k' v'" by blast
      show ?thesis
      proof (cases "k' = k")
        case True
        with kv u show ?thesis by simp
      next
        case False
        with kv have "?U k' = Some v' \<and> map_of (utxo_cache ?s) k' = None \<and> uk = ukey_of k' v'"
          by simp
        then show ?thesis by blast
      qed
    next
      assume "uk \<in> set (db_deletes s)"
      then show ?thesis by simp
    qed
  qed
qed

lemma inv_put:
  assumes inv: "utxo_inv H s U" and n: "U k = None"
    and wf: "length k = 34" "length v = 23" "H (ord_of v) = Some (take 32 k)"
  shows "utxo_inv H (s\<lparr>utxo_cache := AList.update k v (utxo_cache s)\<rparr>) (U(k \<mapsto> v))"
proof (rule utxo_invI)
  let ?s = "s\<lparr>utxo_cache := AList.update k v (utxo_cache s)\<rparr>"
  let ?U = "U(k \<mapsto> v)"
  have m: "map_of (AList.update k v (utxo_cache s)) k' =
           (if k' = k then Some v else map_of (utxo_cache s) k')" for k'
    by (simp add: update_conv')
  show "distinct (map fst (utxo_cache ?s))"
    using inv_distinct [OF inv] by (simp add: distinct_update)
  show "length k' = 34 \<and> length v' = 23 \<and> H (ord_of v') = Some (take 32 k')" if "?U k' = Some v'" for k' v'
    using that inv_entry [OF inv, of k' v'] wf by (auto split: if_splits)
  show "?U k' = Some v'" if "map_of (utxo_cache ?s) k' = Some v'" for k' v'
    using that inv_cache [OF inv, of k' v'] by (auto simp: m split: if_splits)
  show "map_of (utxo_db ?s) (hkey_of k' v') = Some (take 11 v') \<and>
         map_of (utxo_db ?s) (ukey_of k' v') = Some (drop 15 v') \<and>
         hkey_of k' v' \<notin> set (db_deletes ?s) \<and> ukey_of k' v' \<notin> set (db_deletes ?s)"
    if "?U k' = Some v'" "map_of (utxo_cache ?s) k' = None" for k' v'
    using that inv_rows [OF inv, of k' v'] by (auto simp: m split: if_splits)
  have lv: "live ?U ?s k' \<Longrightarrow> live U s k'" for k'
    by (auto simp: live_def m split: if_splits)
  show "length hk = 11 \<and> ordinal_hash ?s hk = H (le_int (drop 7 hk)) \<and>
         ((\<exists>k' v'. ?U k' = Some v' \<and> map_of (utxo_cache ?s) k' = None \<and> hk = hkey_of k' v') \<or>
          (hk \<in> set (db_deletes ?s) \<and>
           (\<exists>t. H (le_int (drop 7 hk)) = Some t \<and> \<not> live ?U ?s (t @ take 2 (drop 5 hk)))))"
    if r: "map_of (utxo_db ?s) hk = Some hx" and p: "prefix [104] hk" for hk hx
  proof -
    from r have r': "map_of (utxo_db s) hk = Some hx" by simp
    note h = inv_hrow [OF inv r' p]
    from h(3) have "(\<exists>k' v'. ?U k' = Some v' \<and> map_of (utxo_cache ?s) k' = None \<and> hk = hkey_of k' v') \<or>
          (hk \<in> set (db_deletes ?s) \<and>
           (\<exists>t. H (le_int (drop 7 hk)) = Some t \<and> \<not> live ?U ?s (t @ take 2 (drop 5 hk))))"
    proof
      assume "\<exists>k v. U k = Some v \<and> map_of (utxo_cache s) k = None \<and> hk = hkey_of k v"
      then obtain k' v' where kv: "U k' = Some v'" "map_of (utxo_cache s) k' = None"
        "hk = hkey_of k' v'" by blast
      with n have "k' \<noteq> k" by auto
      with kv have "?U k' = Some v' \<and> map_of (utxo_cache ?s) k' = None \<and> hk = hkey_of k' v'"
        by (simp add: m)
      then show ?thesis by blast
    next
      assume "hk \<in> set (db_deletes s) \<and>
        (\<exists>t. H (le_int (drop 7 hk)) = Some t \<and> \<not> live U s (t @ take 2 (drop 5 hk)))"
      then show ?thesis using lv by auto
    qed
    with h(1,2) show ?thesis by simp
  qed
  show "(\<exists>k' v'. ?U k' = Some v' \<and> map_of (utxo_cache ?s) k' = None \<and> uk = ukey_of k' v') \<or>
         uk \<in> set (db_deletes ?s)"
    if r: "map_of (utxo_db ?s) uk = Some a" and p: "prefix [117] uk" for uk a
  proof -
    from r have r': "map_of (utxo_db s) uk = Some a" by simp
    from inv_urow [OF inv r' p] show ?thesis
    proof
      assume "\<exists>k v. U k = Some v \<and> map_of (utxo_cache s) k = None \<and> uk = ukey_of k v"
      then obtain k' v' where kv: "U k' = Some v'" "map_of (utxo_cache s) k' = None"
        "uk = ukey_of k' v'" by blast
      with n have "k' \<noteq> k" by auto
      with kv have "?U k' = Some v' \<and> map_of (utxo_cache ?s) k' = None \<and> uk = ukey_of k' v'"
        by (simp add: m)
      then show ?thesis by blast
    next
      assume "uk \<in> set (db_deletes s)"
      then show ?thesis by simp
    qed
  qed
qed

lemma ordinal_hash_file:
  "hashes_file s' = hashes_file s \<Longrightarrow> ordinal_hash s' hk = ordinal_hash s hk"
  by (simp add: ordinal_hash_def fs_tx_hash_def split: option.splits)

lemma utxo_inv_cong:
  assumes "utxo_cache s' = utxo_cache s" "db_deletes s' = db_deletes s"
    "utxo_db s' = utxo_db s" "hashes_file s' = hashes_file s"
  shows "utxo_inv H s' U = utxo_inv H s U"
proof -
  have "ordinal_hash s' = ordinal_hash s"
    using ordinal_hash_file [OF assms(4)] by (intro ext)
  moreover have "live U s' = live U s"
    using assms(1) by (intro ext) (simp add: live_def)
  ultimately show ?thesis
    unfolding utxo_inv_def using assms(1,2,3) by simp
qed

lemma inv_touched [simp]: "utxo_inv H (s\<lparr>touched := x\<rparr>) U = utxo_inv H s U"
  by (rule utxo_inv_cong) simp_all


subsection \<open>Spending under the invariant\<close>

lemma filter_singleton:
  "distinct xs \<Longrightarrow> x \<in> set xs \<Longrightarrow> (\<forall>y \<in> set xs. P y \<longleftrightarrow> y = x) \<Longrightarrow> filter P xs = [x]"
proof (induction xs)
  case Nil
  then show ?case by simp
next
  case (Cons a xs)
  show ?case
  proof (cases "a = x")
    case True
    with Cons.prems have "\<forall>y \<in> set xs. \<not> P y" by auto
    then have "filter P xs = []" by (simp add: filter_empty_conv)
    with True Cons.prems show ?thesis by simp
  next
    case False
    with Cons show ?thesis by auto
  qed
qed

lemma distinct_db_iterator: "distinct (db_iterator db p)"
proof -
  have "distinct (map fst (AList.clearjunk db))" by (rule distinct_clearjunk)
  then have "distinct (AList.clearjunk db)" by (simp add: distinct_map)
  then show ?thesis by (simp add: db_iterator_def)
qed

lemma spend_utxo_hit:
  assumes "pack_H idx = Some i2" "map_of (utxo_cache s) (t @ i2) = Some v" "v \<noteq> []"
  shows "spend_utxo s t idx = Inr (v, s\<lparr>utxo_cache := AList.delete (t @ i2) (utxo_cache s)\<rparr>)"
  using assms by (simp add: spend_utxo_def Let_def)

lemma spend_utxo_ok:
  assumes inv: "utxo_inv H s U" and u: "U (t @ i2) = Some v" and p: "pack_H idx = Some i2"
    and t: "length t = 32"
  shows "\<exists>s'. spend_utxo s t idx = Inr (v, s') \<and> utxo_inv H s' (U((t @ i2) := None)) \<and>
              utxo_frame s s'"
proof (cases "map_of (utxo_cache s) (t @ i2)")
  case (Some v')
  with inv_cache [OF inv Some] u have c: "map_of (utxo_cache s) (t @ i2) = Some v" by simp
  have "v \<noteq> []" using inv_entry(2) [OF inv u] by auto
  from spend_utxo_hit [OF p c this] inv_cache_delete [OF inv, of "t @ i2"] c
  show ?thesis by auto
next
  case None
  define k where "k = t @ i2"
  define hk0 where "hk0 = hkey_of k v"
  define hx0 where "hx0 = take 11 v"
  define cs where "cs = db_iterator (utxo_db s) (104 # take 4 t @ i2)"
  have uk: "U k = Some v" and ck: "map_of (utxo_cache s) k = None"
    using u None by (simp_all add: k_def)
  note e = inv_entry [OF inv uk]
  note r = inv_rows [OF inv uk ck]
  note pl = le_int_pack_H [OF p]
  have i2: "length i2 = 2" using pl by simp
  have k4: "take 4 k = take 4 t" "drop 32 k = i2" "take 32 k = t"
    using t by (simp_all add: k_def)
  have hk0: "hk0 = 104 # take 4 t @ i2 @ take 4 (drop 11 v)"
    by (simp add: hk0_def hkey_of_def k4)
  have l0: "length hk0 = 11" using hkey_facts(1) [OF e(1,2)] by (simp add: hk0_def)
  have pre0: "prefix (104 # take 4 t @ i2) hk0" by (simp add: hk0)
  have mem: "(hk0, hx0) \<in> set cs"
    using r(1) pre0 by (simp add: cs_def set_db_iterator hk0_def hx0_def)
  have uk0: "117 # hx0 @ slice_from hk0 (- 6) = ukey_of k v"
    using slices_hkey(2) [OF l0] t i2 by (simp add: hk0 hx0_def ukey_of_def k4)
  have "drop 15 v \<noteq> []" using e(2) by simp
  then have ca: "companion_amount s hk0 hx0 = Some (drop 15 v)"
    using r(2) by (simp add: companion_amount_def uk0 db_get_def)
  have res: "spend_result s hk0 hx0 (drop 15 v) =
              Inr (v, s\<lparr>db_deletes := db_deletes s @ [hkey_of k v, ukey_of k v]\<rparr>)"
    using slices_hkey(1) [OF l0] value_split [OF e(2)] t i2
    by (simp add: spend_result_def uk0) (simp add: hk0 hk0_def [symmetric] hx0_def)
  have oh0: "ordinal_hash s hk0 = Some t"
    using inv_hrow(2) [OF inv r(1)] hkey_facts(4,6) [OF e(1,2)] e(3) by (simp add: hk0_def k4)
  have cand: "ordinal_hash s hk \<noteq> None \<and> (ordinal_hash s hk = Some t \<longleftrightarrow> (hk, hx) = (hk0, hx0))"
    if m: "(hk, hx) \<in> set cs" for hk hx
  proof -
    from m have row: "map_of (utxo_db s) hk = Some hx" and pre: "prefix (104 # take 4 t @ i2) hk"
      by (simp_all add: cs_def set_db_iterator)
    from pre have p104: "prefix [104] hk" by (auto simp: prefix_def)
    from pre obtain rest where hk: "hk = (104 # take 4 t @ i2) @ rest" by (auto simp: prefix_def)
    have d5: "take 2 (drop 5 hk) = i2" using t i2 by (simp add: hk)
    from inv_hrow_hash [OF inv row p104] obtain t' where
      t': "ordinal_hash s hk = Some t'"
      and lv: "live U s (t' @ take 2 (drop 5 hk)) \<longrightarrow>
                hk = hkey_of (t' @ take 2 (drop 5 hk)) (the (U (t' @ take 2 (drop 5 hk))))"
      by blast
    have "hk = hk0" if "t' = t"
    proof -
      have "live U s k" using uk ck by (simp add: live_def)
      with lv that d5 uk show ?thesis by (simp add: k_def [symmetric] hk0_def)
    qed
    moreover have "hx = hx0" if "hk = hk0"
      using that row r(1) by (simp add: hk0_def hx0_def)
    ultimately show ?thesis using t' oh0 by auto
  qed
  have all: "\<forall>(hk, hx) \<in> set cs. ordinal_hash s hk \<noteq> None"
    using cand by blast
  have f: "filter (\<lambda>(hk, hx). ordinal_hash s hk = Some t) cs = [(hk0, hx0)]"
    using distinct_db_iterator mem cand
    by (intro filter_singleton) (auto simp: cs_def)
  have scan: "scan_candidates s t (length cs) cs = spend_result s hk0 hx0 (drop 15 v)"
  proof (cases "1 < length cs")
    case True
    show ?thesis
      using scan_multi [OF True all, of t] by (simp add: f ca)
  next
    case False
    then have le: "length cs \<le> 1" by simp
    with mem have "cs = [(hk0, hx0)]" by (cases cs) auto
    with scan_single [OF le, of s t cs] show ?thesis by (simp add: ca)
  qed
  have "spend_utxo s t idx = Inr (v, s\<lparr>db_deletes := db_deletes s @ [hkey_of k v, ukey_of k v]\<rparr>)"
    using spend_utxo_miss [OF p None] scan res by (simp add: cs_def Let_def)
  moreover have "utxo_inv H (s\<lparr>db_deletes := db_deletes s @ [hkey_of k v, ukey_of k v]\<rparr>)
                   (U(k := None))"
    using inv uk ck by (rule inv_db_spend)
  ultimately show ?thesis by (auto simp: k_def)
qed


subsection \<open>Inputs and outputs\<close>

lemma spend_inputs_ok:
  assumes "utxo_inv H s U" "valid_inputs U ins"
  shows "\<exists>s' hx'. spend_inputs s ins undo hx =
            Inr (s', undo @ map (\<lambda>i. the (U (in_key i))) ins, hx') \<and>
          utxo_inv H s' (U |` (- set (map in_key ins))) \<and> utxo_frame s s'"
  using assms
proof (induction ins arbitrary: s U undo hx)
  case Nil
  then show ?case by simp
next
  case (Cons i ins)
  from Cons.prems(2) obtain v i2 where v: "U (in_key i) = Some v"
    and i2: "pack_H (prev_idx i) = Some i2" and l: "length (prev_hash i) = 32"
    and d: "in_key i \<notin> set (map in_key ins)" "distinct (map in_key ins)"
    and rest: "\<forall>j \<in> set ins. length (prev_hash j) = 32 \<and> pack_H (prev_idx j) \<noteq> None \<and>
                 U (in_key j) \<noteq> None"
    by (auto simp: valid_inputs_def)
  have k: "in_key i = prev_hash i @ i2" using i2 by (simp add: in_key_def)
  from spend_utxo_ok [OF Cons.prems(1) v [unfolded k] i2 l] obtain s1 where
    1: "spend_utxo s (prev_hash i) (prev_idx i) = Inr (v, s1)"
    and inv1: "utxo_inv H s1 (U(in_key i := None))" and f1: "utxo_frame s s1"
    by (auto simp: k)
  have ne: "in_key j \<noteq> in_key i" if "j \<in> set ins" for j
    using d(1) that by (metis image_eqI set_map)
  have val1: "valid_inputs (U(in_key i := None)) ins"
    using d(2) rest ne by (simp add: valid_inputs_def)
  from Cons.IH [OF inv1 val1, of "undo @ [v]" "hx @ [slice_to v (- 12)]"] obtain s' hx' where
    2: "spend_inputs s1 ins (undo @ [v]) (hx @ [slice_to v (- 12)]) =
          Inr (s', (undo @ [v]) @ map (\<lambda>j. the ((U(in_key i := None)) (in_key j))) ins, hx')"
    and inv2: "utxo_inv H s' (U(in_key i := None) |` (- set (map in_key ins)))"
    and f2: "utxo_frame s1 s'"
    by blast
  have m: "map (\<lambda>j. the ((U(in_key i := None)) (in_key j))) ins = map (\<lambda>j. the (U (in_key j))) ins"
    using ne by (intro map_cong) auto
  have r: "U(in_key i := None) |` (- set (map in_key ins)) = U |` (- set (map in_key (i # ins)))"
    by (rule ext) (simp add: restrict_map_def)
  have "spend_inputs s (i # ins) undo hx =
          Inr (s', undo @ map (\<lambda>j. the (U (in_key j))) (i # ins), hx')"
    using 1 2 [unfolded m] v by simp
  moreover have "utxo_inv H s' (U |` (- set (map in_key (i # ins))))" using inv2 r by simp
  moreover have "utxo_frame s s'" using f1 f2 by (rule utxo_frame_trans)
  ultimately show ?case by blast
qed

lemma out_entries_keys:
  "(k, v) \<in> set (out_entries E th n idx outs) \<Longrightarrow>
   \<exists>j < length outs. k = th @ the (pack_H (int (idx + j)))"
proof (induction outs arbitrary: idx)
  case Nil
  then show ?case by simp
next
  case (Cons out outs)
  from Cons.prems have "k = th @ the (pack_H (int idx)) \<or> (k, v) \<in> set (out_entries E th n (idx + 1) outs)"
    by (auto split: if_splits)
  then show ?case
  proof
    assume "k = th @ the (pack_H (int idx))"
    then show ?thesis by (intro exI [of _ 0]) simp
  next
    assume "(k, v) \<in> set (out_entries E th n (idx + 1) outs)"
    from Cons.IH [OF this] obtain j where "j < length outs" "k = th @ the (pack_H (int (idx + 1 + j)))"
      by blast
    then show ?thesis by (intro exI [of _ "Suc j"]) simp
  qed
qed

lemma pack_H_Some: "n < 65536 \<Longrightarrow> \<exists>b. pack_H (int n) = Some b"
  by (simp add: pack_H_def)

lemma pack_H_key_neq:
  assumes "i < 65536" "j < 65536" "i \<noteq> j"
  shows "th @ the (pack_H (int i)) \<noteq> th @ the (pack_H (int j))"
proof -
  from assms obtain a b where a: "pack_H (int i) = Some a" and b: "pack_H (int j) = Some b"
    using pack_H_Some by blast
  have "a \<noteq> b" using pack_H_inj [OF a, of "int j"] b assms(3) by auto
  with a b show ?thesis by simp
qed

lemma outs_ok_tail:
  assumes "outs_ok E U th idx (out # outs)"
  shows "outs_ok E U th (idx + 1) outs"
proof -
  have "U (th @ the (pack_H (int (idx + 1 + j)))) = None" if "j < length outs" for j
  proof -
    from that have "Suc j < length (out # outs)" by simp
    with assms have "U (th @ the (pack_H (int (idx + Suc j)))) = None"
      unfolding outs_ok_def by blast
    then show ?thesis by simp
  qed
  with assms show ?thesis unfolding outs_ok_def by auto
qed

lemma outs_ok_put:
  assumes "outs_ok E U th idx (out # outs)"
  shows "outs_ok E (U(th @ the (pack_H (int idx)) \<mapsto> v)) th (idx + 1) outs"
proof -
  from outs_ok_tail [OF assms] have t: "outs_ok E U th (idx + 1) outs" .
  from assms have b: "idx + length (out # outs) \<le> 65536" by (simp add: outs_ok_def)
  have "th @ the (pack_H (int (idx + 1 + j))) \<noteq> th @ the (pack_H (int idx))"
    if "j < length outs" for j
    using that b by (intro pack_H_key_neq) auto
  with t show ?thesis unfolding outs_ok_def by auto
qed

lemma add_outputs_ok:
  assumes "utxo_inv H s U" "outs_ok E U th idx outs" "pack_I n = Some nb" "H n = Some th"
  shows "\<exists>s' hx'. add_outputs E s th nb idx outs hx = Inr (s', hx') \<and>
          utxo_inv H s' (U ++ map_of (out_entries E th n idx outs)) \<and> utxo_frame s s'"
  using assms(1,2)
proof (induction outs arbitrary: s U idx hx)
  case Nil
  then show ?case by simp
next
  case (Cons out outs)
  show ?case
  proof (cases "spendable E out")
    case False
    from Cons.IH [OF Cons.prems(1) outs_ok_tail [OF Cons.prems(2)], of hx] False
    show ?thesis by (auto simp: spendable_def)
  next
    case True
    then obtain hX where hX: "hashX_from_script E (pk_script out) = Some hX" "hX \<noteq> []"
      by (auto simp: spendable_def)
    from Cons.prems(2) True hX have lh: "length hX = 11"
      and vr: "0 \<le> out_value out" "out_value out < 2 ^ 64"
      and lt: "length th = 32" and b: "idx < 65536"
      and fresh: "U (th @ the (pack_H (int idx))) = None"
      unfolding outs_ok_def HASHX_LEN_def by (auto dest: spec [of _ 0])
    from b obtain ip where ip: "pack_H (int idx) = Some ip" using pack_H_Some by blast
    from vr obtain vp where vp: "pack_Q (out_value out) = Some vp" by (auto simp: pack_Q_def)
    define k where "k = th @ ip"
    define v where "v = hX @ nb @ vp"
    note ln = le_int_pack_I [OF assms(3)]
    have lk: "length k = 34" using lt le_int_pack_H [OF ip] by (simp add: k_def)
    have lv: "length v = 23" using lh ln length_pack_Q [OF vp] by (simp add: v_def)
    have ov: "ord_of v = n" using lh ln by (simp add: ord_of_def v_def)
    have hv: "H (ord_of v) = Some (take 32 k)" using assms(4) lt by (simp add: ov k_def)
    have fr: "U k = None" using fresh ip by (simp add: k_def)
    from inv_put [OF Cons.prems(1) fr lk lv hv]
    have inv1: "utxo_inv H (s\<lparr>utxo_cache := AList.update k v (utxo_cache s)\<rparr>) (U(k \<mapsto> v))" .
    have ok1: "outs_ok E (U(k \<mapsto> v)) th (idx + 1) outs"
      using outs_ok_put [OF Cons.prems(2), of v] ip by (simp add: k_def)
    from Cons.IH [OF inv1 ok1, of "hx @ [hX]"] obtain s' hx' where
      2: "add_outputs E (s\<lparr>utxo_cache := AList.update k v (utxo_cache s)\<rparr>) th nb (idx + 1) outs
            (hx @ [hX]) = Inr (s', hx')"
      and inv2: "utxo_inv H s' (U(k \<mapsto> v) ++ map_of (out_entries E th n (idx + 1) outs))"
      and f2: "utxo_frame (s\<lparr>utxo_cache := AList.update k v (utxo_cache s)\<rparr>) s'"
      by blast
    have nk: "map_of (out_entries E th n (idx + 1) outs) k = None"
    proof (rule ccontr)
      assume "map_of (out_entries E th n (idx + 1) outs) k \<noteq> None"
      then obtain w where "(k, w) \<in> set (out_entries E th n (idx + 1) outs)"
        by (auto dest: map_of_SomeD)
      from out_entries_keys [OF this] obtain j where j: "j < length outs"
        "k = th @ the (pack_H (int (idx + 1 + j)))" by blast
      from Cons.prems(2) have "idx + length (out # outs) \<le> 65536" by (simp add: outs_ok_def)
      with j(1) have "th @ the (pack_H (int (idx + 1 + j))) \<noteq> th @ the (pack_H (int idx))"
        by (intro pack_H_key_neq) auto
      with j(2) ip show False by (simp add: k_def)
    qed
    have e: "out_entries E th n idx (out # outs) = (k, v) # out_entries E th n (idx + 1) outs"
      using True hX ip vp assms(3) by (simp add: k_def v_def)
    have m: "U(k \<mapsto> v) ++ map_of (out_entries E th n (idx + 1) outs) =
             U ++ map_of (out_entries E th n idx (out # outs))"
      unfolding e using nk by (intro ext) (auto simp: map_add_def split: option.splits)
    have "add_outputs E s th nb idx (out # outs) hx = Inr (s', hx')"
      using 2 hX ip vp by (simp add: k_def v_def)
    moreover have "utxo_frame s s'"
      using utxo_frame_trans [OF utxo_frame_cache f2] .
    ultimately show ?thesis using inv2 m by auto
  qed
qed

section \<open>Advancing blocks over the represented UTXO set\<close>

lemma adv_frame_refl [simp]: "adv_frame s s"
  by (simp add: adv_frame_def)

lemma adv_frame_trans: "adv_frame s s' \<Longrightarrow> adv_frame s' s'' \<Longrightarrow> adv_frame s s''"
  by (simp add: adv_frame_def)

lemma utxo_frame_adv: "utxo_frame s s' \<Longrightarrow> adv_frame s s'"
proof -
  assume "utxo_frame s s'"
  then have e: "erase_utxo s' = erase_utxo s" by (simp add: utxo_frame_def)
  have "erase_adv x = (erase_utxo x)\<lparr>tx_hashes := [], tx_count := 0, tx_counts := [],
                  hist := \<lparr>unflushed = [], flush_count = 0\<rparr>,
                  undo_infos := [], raw_blocks_archive := []\<rparr>" for x
    by (simp add: erase_adv_def erase_utxo_def)
  with e show ?thesis by (simp add: adv_frame_def)
qed

lemma adv_frame_fields:
  assumes "adv_frame s s'"
  shows "height s' = height s" "tip s' = tip s" "utxo_db s' = utxo_db s"
    "hashes_file s' = hashes_file s" "fs_height s' = fs_height s"
    "fs_tx_count s' = fs_tx_count s" "db_height s' = db_height s"
    "db_tx_count s' = db_tx_count s" "db_tip s' = db_tip s" "headers s' = headers s"
    "caught_up s' = caught_up s" "headers_file s' = headers_file s"
    "last_flush_tx_count s' = last_flush_tx_count s" "utxo_flush_count s' = utxo_flush_count s"
proof -
  have e: "erase_adv s' = erase_adv s" using assms by (simp add: adv_frame_def)
  have r: "f s' = f s" if "\<And>x. f (erase_adv x) = f x" for f :: "bp \<Rightarrow> 'a"
    using e that by metis
  show "height s' = height s" "tip s' = tip s" "utxo_db s' = utxo_db s"
    "hashes_file s' = hashes_file s" "fs_height s' = fs_height s"
    "fs_tx_count s' = fs_tx_count s" "db_height s' = db_height s"
    "db_tx_count s' = db_tx_count s" "db_tip s' = db_tip s" "headers s' = headers s"
    "caught_up s' = caught_up s" "headers_file s' = headers_file s"
    "last_flush_tx_count s' = last_flush_tx_count s" "utxo_flush_count s' = utxo_flush_count s"
    by (rule r, simp add: erase_adv_def erase_utxo_def)+
qed

lemma adv_frame_upd [simp]:
  "adv_frame s (s\<lparr>tx_hashes := a\<rparr>)" "adv_frame s (s\<lparr>undo_infos := b\<rparr>)"
  "adv_frame s (s\<lparr>hist := c, tx_count := d, tx_counts := e\<rparr>)"
  "adv_frame s (s\<lparr>raw_blocks_archive := f\<rparr>)"
  by (simp_all add: adv_frame_def erase_adv_def erase_utxo_def)

lemma restrict_UNIV [simp]: "U |` UNIV = U"
  by (rule ext) (simp add: restrict_map_def)

lemma hashes_match_Cons:
  assumes "hashes_match H n (th # rest)"
  shows "H n = Some (snd th)" "hashes_match H (n + 1) rest"
proof -
  from assms have "H (n + int 0) = Some (snd ((th # rest) ! 0))"
    unfolding hashes_match_def by blast
  then show "H n = Some (snd th)" by simp
  show "hashes_match H (n + 1) rest"
    unfolding hashes_match_def
  proof (intro allI impI)
    fix j assume "j < length rest"
    then have "Suc j < length (th # rest)" by simp
    with assms have "H (n + int (Suc j)) = Some (snd ((th # rest) ! Suc j))"
      unfolding hashes_match_def by blast
    then show "H (n + 1 + int j) = Some (snd (rest ! j))" by (simp add: add.assoc)
  qed
qed

lemma advance_txs_loop_ok:
  assumes "utxo_inv H s U" "valid_txs E U n txs" "hashes_match H n txs"
  shows "\<exists>s' hbt'. advance_txs_loop E s txs undo n hbt =
            Inr (s', undo @ undo_txs E U n txs, n + int (length txs), hbt') \<and>
          utxo_inv H s' (abs_txs E U n txs) \<and> utxo_frame s s'"
  using assms
proof (induction txs arbitrary: s U n undo hbt)
  case Nil
  then show ?case by simp
next
  case (Cons a txs)
  obtain tx th where a: "a = (tx, th)" by (cases a)
  from Cons.prems(2) have vt: "valid_tx E U n (tx, th)"
    and vr: "valid_txs E (abs_tx E U n (tx, th)) (n + 1) txs"
    by (simp_all add: a)
  from hashes_match_Cons [OF Cons.prems(3) [unfolded a]]
  have hn: "H n = Some th" and hr: "hashes_match H (n + 1) txs" by simp_all
  from vt obtain nb where nb: "pack_I n = Some nb" by (auto simp: valid_tx_def pack_I_def)
  define U1 where "U1 = U |` (- set (tx_in_keys tx))"
  have "\<exists>s1 hx1. (if is_coinbase tx then Inr (s, undo, [])
                   else spend_inputs s (inputs tx) undo []) = Inr (s1, undo @ undo_tx U tx, hx1) \<and>
          utxo_inv H s1 U1 \<and> utxo_frame s s1"
  proof (cases "is_coinbase tx")
    case True
    then show ?thesis using Cons.prems(1) by (simp add: U1_def tx_in_keys_def undo_tx_def)
  next
    case False
    with vt have "valid_inputs U (inputs tx)" by (simp add: valid_tx_def)
    from spend_inputs_ok [OF Cons.prems(1) this, of undo "[]"] False
    show ?thesis by (simp add: U1_def tx_in_keys_def undo_tx_def comp_def)
  qed
  then obtain s1 hx1 where
    1: "(if is_coinbase tx then Inr (s, undo, [])
         else spend_inputs s (inputs tx) undo []) = Inr (s1, undo @ undo_tx U tx, hx1)"
    and inv1: "utxo_inv H s1 U1" and f1: "utxo_frame s s1" by blast
  from vt have "outs_ok E U1 th 0 (outputs tx)"
    by (simp add: valid_tx_def valid_outputs_def U1_def)
  from add_outputs_ok [OF inv1 this nb hn, of hx1] obtain s2 hx2 where
    2: "add_outputs E s1 th nb 0 (outputs tx) hx1 = Inr (s2, hx2)"
    and inv2: "utxo_inv H s2 (U1 ++ map_of (out_entries E th n 0 (outputs tx)))"
    and f2: "utxo_frame s1 s2" by blast
  have ab: "U1 ++ map_of (out_entries E th n 0 (outputs tx)) = abs_tx E U n (tx, th)"
    by (simp add: abs_tx_def U1_def)
  define s3 where "s3 = s2\<lparr>touched := touched s2 \<union> set hx2\<rparr>"
  have inv3: "utxo_inv H s3 (abs_tx E U n (tx, th))" using inv2 ab by (simp add: s3_def)
  from Cons.IH [OF inv3 vr hr, of "undo @ undo_tx U tx" "hbt @ [hx2]"] obtain s' hbt' where
    3: "advance_txs_loop E s3 txs (undo @ undo_tx U tx) (n + 1) (hbt @ [hx2]) =
          Inr (s', (undo @ undo_tx U tx) @ undo_txs E (abs_tx E U n (tx, th)) (n + 1) txs,
               n + 1 + int (length txs), hbt')"
    and inv': "utxo_inv H s' (abs_txs E (abs_tx E U n (tx, th)) (n + 1) txs)"
    and f3: "utxo_frame s3 s'" by blast
  have "advance_txs_loop E s (a # txs) undo n hbt =
          Inr (s', undo @ undo_txs E U n (a # txs), n + int (length (a # txs)), hbt')"
    unfolding a using nb 1 2 3 by (simp add: s3_def)
  moreover have "utxo_inv H s' (abs_txs E U n (a # txs))" using inv' by (simp add: a)
  moreover have "utxo_frame s s'"
    using f1 f2 f3 utxo_frame_touched [of s2 "touched s2 \<union> set hx2"]
    unfolding s3_def by (blast intro: utxo_frame_trans)
  ultimately show ?case by blast
qed

lemma advance_txs_ok:
  assumes "utxo_inv H s U" "valid_txs E U (tx_count s) txs" "hashes_match H (tx_count s) txs"
  shows "\<exists>s'. advance_txs E s txs = Inr (undo_txs E U (tx_count s) txs, s') \<and>
          utxo_inv H s' (abs_txs E U (tx_count s) txs) \<and> adv_frame s s' \<and>
          tx_count s' = tx_count s + int (length txs) \<and>
          tx_counts s' = tx_counts s @ [tx_count s + int (length txs)] \<and>
          tx_hashes s' = tx_hashes s @ [concat (map snd txs)] \<and>
          undo_infos s' = undo_infos s \<and> raw_blocks_archive s' = raw_blocks_archive s"
proof -
  define s0 where "s0 = s\<lparr>tx_hashes := tx_hashes s @ [concat (map snd txs)]\<rparr>"
  have inv0: "utxo_inv H s0 U"
    using assms(1) utxo_inv_cong [of s0 s H U] by (simp add: s0_def)
  from advance_txs_loop_ok [OF inv0 assms(2,3), of "[]" "[]"] obtain s1 hbt where
    1: "advance_txs_loop E s0 txs [] (tx_count s) [] =
          Inr (s1, undo_txs E U (tx_count s) txs, tx_count s + int (length txs), hbt)"
    and inv1: "utxo_inv H s1 (abs_txs E U (tx_count s) txs)" and f1: "utxo_frame s0 s1"
    by auto
  define s' where "s' = s1\<lparr>hist := hist_add_unflushed (hist s1) hbt (tx_count s1),
                     tx_count := tx_count s + int (length txs),
                     tx_counts := tx_counts s1 @ [tx_count s + int (length txs)]\<rparr>"
  have r: "advance_txs E s txs = Inr (undo_txs E U (tx_count s) txs, s')"
    using 1 by (simp add: advance_txs_def Let_def s0_def s'_def)
  have inv': "utxo_inv H s' (abs_txs E U (tx_count s) txs)"
    using inv1 utxo_inv_cong [of s' s1 H] by (simp add: s'_def)
  note ff = utxo_frame_fields [OF f1]
  have fr: "adv_frame s s'"
  proof -
    have "adv_frame s s0" by (simp add: s0_def)
    moreover have "adv_frame s0 s1" using f1 by (rule utxo_frame_adv)
    moreover have "adv_frame s1 s'" by (simp add: s'_def)
    ultimately show ?thesis by (blast intro: adv_frame_trans)
  qed
  have "tx_counts s' = tx_counts s @ [tx_count s + int (length txs)]"
    "tx_hashes s' = tx_hashes s @ [concat (map snd txs)]"
    "undo_infos s' = undo_infos s" "raw_blocks_archive s' = raw_blocks_archive s"
    "tx_count s' = tx_count s + int (length txs)"
    using ff by (simp_all add: s'_def s0_def)
  with r inv' fr show ?thesis by blast
qed


lemma hashes_match_append:
  assumes "hashes_match H n (xs @ ys)"
  shows "hashes_match H n xs" "hashes_match H (n + int (length xs)) ys"
proof -
  show "hashes_match H n xs"
    unfolding hashes_match_def
  proof (intro allI impI)
    fix j assume j: "j < length xs"
    then have "j < length (xs @ ys)" by simp
    with assms have "H (n + int j) = Some (snd ((xs @ ys) ! j))"
      unfolding hashes_match_def by blast
    with j show "H (n + int j) = Some (snd (xs ! j))" by (simp add: nth_append)
  qed
  show "hashes_match H (n + int (length xs)) ys"
    unfolding hashes_match_def
  proof (intro allI impI)
    fix j assume "j < length ys"
    then have "length xs + j < length (xs @ ys)" by simp
    with assms have "H (n + int (length xs + j)) = Some (snd ((xs @ ys) ! (length xs + j)))"
      unfolding hashes_match_def by blast
    then show "H (n + int (length xs) + int j) = Some (snd (ys ! j))"
      by (simp add: add.assoc)
  qed
qed

lemma advance_blocks_loop_ok:
  assumes "utxo_inv H s U" "valid_blocks E U (tx_count s) blocks"
    "hashes_match H (tx_count s) (all_txs blocks)" "m \<le> h + 1"
  shows "\<exists>s'. advance_blocks_loop E s m h blocks = Inr (s', h + int (length blocks)) \<and>
      utxo_inv H s' (abs_blocks E U (tx_count s) blocks) \<and> adv_frame s s' \<and>
      tx_count s' = tx_count s + int (length (all_txs blocks)) \<and>
      tx_counts s' = tx_counts s @ counts (tx_count s) blocks \<and>
      tx_hashes s' = tx_hashes s @ map block_hashes blocks \<and>
      undo_infos s' = undo_infos s @ undo_list E U (tx_count s) h blocks"
  using assms
proof (induction blocks arbitrary: s U h)
  case Nil
  then show ?case by (simp add: all_txs_def)
next
  case (Cons b blocks)
  define n where "n = tx_count s"
  define txs where "txs = transactions b"
  from Cons.prems(2) have vt: "valid_txs E U n txs"
    and vb: "valid_blocks E (abs_txs E U n txs) (n + int (length txs)) blocks"
    by (simp_all add: n_def txs_def)
  have at: "all_txs (b # blocks) = txs @ all_txs blocks" by (simp add: all_txs_def txs_def)
  from hashes_match_append [OF Cons.prems(3) [unfolded at]]
  have h1: "hashes_match H n txs" and h2: "hashes_match H (n + int (length txs)) (all_txs blocks)"
    by (simp_all add: n_def)
  from advance_txs_ok [OF Cons.prems(1) vt [unfolded n_def] h1 [unfolded n_def]] obtain s1 where
    1: "advance_txs E s txs = Inr (undo_txs E U n txs, s1)"
    and inv1: "utxo_inv H s1 (abs_txs E U n txs)" and f1: "adv_frame s s1"
    and c1: "tx_count s1 = n + int (length txs)"
    and cs1: "tx_counts s1 = tx_counts s @ [n + int (length txs)]"
    and th1: "tx_hashes s1 = tx_hashes s @ [concat (map snd txs)]"
    and u1: "undo_infos s1 = undo_infos s"
    by (auto simp: n_def)
  define s2 where "s2 = write_raw_block (raw b) (h + 1)
                    (s1\<lparr>undo_infos := undo_infos s1 @ [(undo_txs E U n txs, h + 1)]\<rparr>)"
  have inv2: "utxo_inv H s2 (abs_txs E U n txs)"
    using inv1 utxo_inv_cong [of s2 s1 H] by (simp add: s2_def write_raw_block_def)
  have c2: "tx_count s2 = n + int (length txs)" using c1 by (simp add: s2_def write_raw_block_def)
  have f2: "adv_frame s1 s2"
    using adv_frame_trans [OF adv_frame_upd(2) adv_frame_upd(4)]
    by (simp add: s2_def write_raw_block_def)
  have m2: "m \<le> h + 1 + 1" using Cons.prems(4) by simp
  from Cons.IH [OF inv2 vb [folded c2] h2 [folded c2] m2] obtain s' where
    3: "advance_blocks_loop E s2 m (h + 1) blocks = Inr (s', h + 1 + int (length blocks))"
    and inv': "utxo_inv H s' (abs_blocks E (abs_txs E U n txs) (tx_count s2) blocks)"
    and f3: "adv_frame s2 s'"
    and c3: "tx_count s' = tx_count s2 + int (length (all_txs blocks))"
    and cs3: "tx_counts s' = tx_counts s2 @ counts (tx_count s2) blocks"
    and th3: "tx_hashes s' = tx_hashes s2 @ map block_hashes blocks"
    and u3: "undo_infos s' = undo_infos s2 @
               undo_list E (abs_txs E U n txs) (tx_count s2) (h + 1) blocks"
    by blast
  have r: "advance_blocks_loop E s m h (b # blocks) = Inr (s', h + int (length (b # blocks)))"
    using 1 3 Cons.prems(4) by (simp add: txs_def s2_def add.assoc)
  have "utxo_inv H s' (abs_blocks E U (tx_count s) (b # blocks))"
    using inv' c2 by (simp add: n_def txs_def)
  moreover have "adv_frame s s'" using f1 f2 f3 by (blast intro: adv_frame_trans)
  moreover have "tx_count s' = tx_count s + int (length (all_txs (b # blocks)))"
    using c3 c2 by (simp add: at n_def)
  moreover have "tx_counts s' = tx_counts s @ counts (tx_count s) (b # blocks)"
    using cs3 cs1 c2 by (simp add: s2_def write_raw_block_def n_def txs_def)
  moreover have "tx_hashes s' = tx_hashes s @ map block_hashes (b # blocks)"
    using th3 th1 by (simp add: s2_def write_raw_block_def block_hashes_def txs_def)
  moreover have "undo_infos s' = undo_infos s @ undo_list E U (tx_count s) h (b # blocks)"
    using u3 u1 c2 by (simp add: s2_def write_raw_block_def n_def txs_def)
  ultimately show ?case using r by blast
qed

section \<open>Flushing the represented UTXO set\<close>

lemma map_of_fold_delete:
  "map_of (fold db_delete ks db) k = (if k \<in> set ks then None else map_of db k)"
  by (induction ks arbitrary: db) (auto simp: db_delete_def delete_conv)

lemma map_of_put_cache_entry:
  assumes "length k = 34" "length v = 23"
  shows "map_of (put_cache_entry (k, v) db) key =
     (if key = ukey_of k v then Some (drop 15 v)
      else if key = hkey_of k v then Some (take 11 v) else map_of db key)"
  using assms
  by (simp add: put_cache_entry_def Let_def slices_value slices_key db_put_def update_conv
                hkey_of_def ukey_of_def)

lemma map_of_fold_put_other:
  assumes "\<forall>(k, v) \<in> set c. length k = 34 \<and> length v = 23"
    and "\<forall>(k, v) \<in> set c. key \<noteq> hkey_of k v \<and> key \<noteq> ukey_of k v"
  shows "map_of (fold put_cache_entry c db) key = map_of db key"
  using assms
proof (induction c arbitrary: db)
  case Nil
  then show ?case by simp
next
  case (Cons e c)
  obtain k v where e: "e = (k, v)" by (cases e)
  from Cons.prems have l: "length k = 34" "length v = 23"
    and n: "key \<noteq> hkey_of k v" "key \<noteq> ukey_of k v"
    and r1: "\<forall>(k, v) \<in> set c. length k = 34 \<and> length v = 23"
    and r2: "\<forall>(k, v) \<in> set c. key \<noteq> hkey_of k v \<and> key \<noteq> ukey_of k v"
    by (simp_all add: e)
  have "map_of (fold put_cache_entry c (put_cache_entry (k, v) db)) key =
        map_of (put_cache_entry (k, v) db) key"
    using r1 r2 by (rule Cons.IH)
  also have "\<dots> = map_of db key" using n by (simp add: map_of_put_cache_entry [OF l])
  finally show ?case by (simp add: e)
qed

lemma map_of_fold_put_in:
  assumes wf: "\<forall>(k, v) \<in> set c. length k = 34 \<and> length v = 23"
    and inj: "\<forall>(k, v) \<in> set c. \<forall>(k', v') \<in> set c.
               hkey_of k v = hkey_of k' v' \<or> ukey_of k v = ukey_of k' v' \<longrightarrow> (k, v) = (k', v')"
    and mem: "(k, v) \<in> set c"
  shows "map_of (fold put_cache_entry c db) (hkey_of k v) = Some (take 11 v) \<and>
         map_of (fold put_cache_entry c db) (ukey_of k v) = Some (drop 15 v)"
  using assms
proof (induction c arbitrary: db)
  case Nil
  then show ?case by simp
next
  case (Cons e c)
  obtain k0 v0 where e: "e = (k0, v0)" by (cases e)
  from Cons.prems(1) have l0: "length k0 = 34" "length v0 = 23"
    and r1: "\<forall>(k, v) \<in> set c. length k = 34 \<and> length v = 23"
    by (simp_all add: e)
  have r2: "\<forall>(k, v) \<in> set c. \<forall>(k', v') \<in> set c.
               hkey_of k v = hkey_of k' v' \<or> ukey_of k v = ukey_of k' v' \<longrightarrow> (k, v) = (k', v')"
    using Cons.prems(2) by (simp add: e) blast
  show ?case
  proof (cases "(k, v) \<in> set c")
    case True
    from Cons.IH [OF r1 r2 True] show ?thesis by (simp add: e)
  next
    case False
    with Cons.prems(3) have kv: "k = k0" "v = v0" by (simp_all add: e)
    have o: "\<forall>(k', v') \<in> set c. hkey_of k v \<noteq> hkey_of k' v' \<and> hkey_of k v \<noteq> ukey_of k' v'"
    proof (clarify, rule conjI)
      fix k' v' assume m: "(k', v') \<in> set c"
      show "hkey_of k v \<noteq> hkey_of k' v'"
      proof
        assume "hkey_of k v = hkey_of k' v'"
        with Cons.prems(2) m have "(k, v) = (k', v')" by (auto simp: e kv)
        with m False show False by simp
      qed
      show "hkey_of k v \<noteq> ukey_of k' v'" by (rule hkey_ukey_neq)
    qed
    have o2: "\<forall>(k', v') \<in> set c. ukey_of k v \<noteq> hkey_of k' v' \<and> ukey_of k v \<noteq> ukey_of k' v'"
    proof (clarify, rule conjI)
      fix k' v' assume m: "(k', v') \<in> set c"
      show "ukey_of k v \<noteq> ukey_of k' v'"
      proof
        assume "ukey_of k v = ukey_of k' v'"
        with Cons.prems(2) m have "(k, v) = (k', v')" by (auto simp: e kv)
        with m False show False by simp
      qed
      show "ukey_of k v \<noteq> hkey_of k' v'" using hkey_ukey_neq [of k' v' k v] by simp
    qed
    have 1: "map_of (fold put_cache_entry c (put_cache_entry (k0, v0) db)) (hkey_of k v) =
          map_of (put_cache_entry (k0, v0) db) (hkey_of k v)"
      using r1 o by (rule map_of_fold_put_other)
    have 2: "map_of (fold put_cache_entry c (put_cache_entry (k0, v0) db)) (ukey_of k v) =
          map_of (put_cache_entry (k0, v0) db) (ukey_of k v)"
      using r1 o2 by (rule map_of_fold_put_other)
    show ?thesis
      using 1 2 hkey_ukey_neq [of k0 v0 k0 v0]
      by (simp add: e kv map_of_put_cache_entry [OF l0])
  qed
qed

lemma map_of_flush_undo_other:
  "\<forall>(u, h) \<in> set us. key \<noteq> undo_key E h \<Longrightarrow>
   map_of (flush_undo_infos E us db) key = map_of db key"
proof (induction us arbitrary: db)
  case Nil
  then show ?case by simp
next
  case (Cons a us)
  obtain u h where a: "a = (u, h)" by (cases a)
  from Cons.prems have n: "key \<noteq> undo_key E h"
    and r: "\<forall>(u, h) \<in> set us. key \<noteq> undo_key E h" by (simp_all add: a)
  from Cons.IH [OF r] n show ?case by (simp add: a db_put_def update_conv)
qed

lemma map_of_flush_undo_in:
  assumes "inj (undo_key E)" "distinct (map snd us)" "(u, h) \<in> set us"
  shows "map_of (flush_undo_infos E us db) (undo_key E h) = Some (concat u)"
  using assms(2,3)
proof (induction us arbitrary: db)
  case Nil
  then show ?case by simp
next
  case (Cons a us)
  obtain u0 h0 where a: "a = (u0, h0)" by (cases a)
  show ?case
  proof (cases "(u, h) \<in> set us")
    case True
    from Cons.prems(1) have "distinct (map snd us)" by simp
    from Cons.IH [OF this True] show ?thesis by (simp add: a)
  next
    case False
    with Cons.prems(2) have uh: "u0 = u" "h0 = h" by (simp_all add: a)
    from Cons.prems(1) have "h \<notin> snd ` set us" by (simp add: a uh)
    then have "\<forall>(u', h') \<in> set us. undo_key E h \<noteq> undo_key E h'"
      using assms(1) by (auto simp: inj_def image_iff)
    from map_of_flush_undo_other [OF this]
    show ?thesis by (simp add: a uh db_put_def update_conv)
  qed
qed

lemma utxo_inv_rows_mono:
  assumes c: "utxo_cache s' = utxo_cache s" and d: "db_deletes s' = db_deletes s"
    and f: "hashes_file s' = hashes_file s"
    and r: "\<And>key. prefix [104] key \<or> prefix [117] key \<Longrightarrow>
               map_of (utxo_db s') key = map_of (utxo_db s) key"
    and inv: "utxo_inv H s U"
  shows "utxo_inv H s' U"
proof (rule utxo_invI)
  show "distinct (map fst (utxo_cache s'))" using inv_distinct [OF inv] c by simp
next
  fix k v assume "U k = Some v"
  then show "length k = 34 \<and> length v = 23 \<and> H (ord_of v) = Some (take 32 k)"
    using inv_entry [OF inv] by blast
next
  fix k v assume "map_of (utxo_cache s') k = Some v"
  then show "U k = Some v" using inv_cache [OF inv] c by simp
next
  fix k v assume u: "U k = Some v" and m: "map_of (utxo_cache s') k = None"
  from m c have m': "map_of (utxo_cache s) k = None" by simp
  have ph: "prefix [104] (hkey_of k v)" by (simp add: hkey_of_def)
  have pu: "prefix [117] (ukey_of k v)" by (simp add: ukey_of_def)
  from inv_rows [OF inv u m'] r [of "hkey_of k v"] r [of "ukey_of k v"] ph pu d
  show "map_of (utxo_db s') (hkey_of k v) = Some (take 11 v) \<and>
        map_of (utxo_db s') (ukey_of k v) = Some (drop 15 v) \<and>
        hkey_of k v \<notin> set (db_deletes s') \<and> ukey_of k v \<notin> set (db_deletes s')"
    by simp
next
  fix hk hx assume m: "map_of (utxo_db s') hk = Some hx" and p: "prefix [104] hk"
  from m p r [of hk] have m': "map_of (utxo_db s) hk = Some hx" by simp
  have l: "live U s' = live U s" using c by (intro ext) (simp add: live_def)
  from inv_hrow [OF inv m' p] ordinal_hash_file [OF f, of hk] c d l
  show "length hk = 11 \<and> ordinal_hash s' hk = H (le_int (drop 7 hk)) \<and>
        ((\<exists>k v. U k = Some v \<and> map_of (utxo_cache s') k = None \<and> hk = hkey_of k v) \<or>
         (hk \<in> set (db_deletes s') \<and>
          (\<exists>t. H (le_int (drop 7 hk)) = Some t \<and> \<not> live U s' (t @ take 2 (drop 5 hk)))))"
    by simp
next
  fix uk a assume m: "map_of (utxo_db s') uk = Some a" and p: "prefix [117] uk"
  from m p r [of uk] have m': "map_of (utxo_db s) uk = Some a" by simp
  from inv_urow [OF inv m' p] c d
  show "(\<exists>k v. U k = Some v \<and> map_of (utxo_cache s') k = None \<and> uk = ukey_of k v) \<or>
        uk \<in> set (db_deletes s')"
    by simp
qed

lemma ordinal_hash_hkey:
  assumes "length k = 34" "length v = 23"
  shows "ordinal_hash s (hkey_of k v) = fst (fs_tx_hash s (ord_of v))"
  using hkey_facts(1,2) [OF assms] assms
  by (simp add: ordinal_hash_def slices_hkey unpack_I_def ord_of_def)

lemma flush_utxos_inv:
  assumes inv: "utxo_inv H s U" and E: "env_ok E"
    and Hf: "\<And>k v. U k = Some v \<Longrightarrow> fst (fs_tx_hash s (ord_of v)) = H (ord_of v)"
  shows "utxo_inv H (flush_utxos E s) U"
proof -
  define db1 where "db1 = fold db_delete (sort (db_deletes s)) (utxo_db s)"
  define db2 where "db2 = fold put_cache_entry (utxo_cache s) db1"
  define db3 where "db3 = flush_undo_infos E (undo_infos s) db2"
  define s' where "s' = flush_utxos E s"
  have f: "utxo_cache s' = []" "db_deletes s' = []" "utxo_db s' = db3"
    "hashes_file s' = hashes_file s"
    by (simp_all add: s'_def flush_utxos_def Let_def db1_def db2_def db3_def)
  have d1: "map_of db1 key = (if key \<in> set (db_deletes s) then None else map_of (utxo_db s) key)"
    for key by (simp add: db1_def map_of_fold_delete)
  have cm: "(k, v) \<in> set (utxo_cache s) \<longleftrightarrow> map_of (utxo_cache s) k = Some v" for k v
    using inv_distinct [OF inv] by (simp add: map_of_eq_Some_iff)
  have cu: "U k = Some v" if "(k, v) \<in> set (utxo_cache s)" for k v
    using that cm inv_cache [OF inv] by blast
  have wf: "\<forall>(k, v) \<in> set (utxo_cache s). length k = 34 \<and> length v = 23"
    using cu inv_entry [OF inv] by blast
  have inj: "\<forall>(k, v) \<in> set (utxo_cache s). \<forall>(k', v') \<in> set (utxo_cache s).
               hkey_of k v = hkey_of k' v' \<or> ukey_of k v = ukey_of k' v' \<longrightarrow> (k, v) = (k', v')"
  proof (clarify)
    fix k v k' v'
    assume a: "(k, v) \<in> set (utxo_cache s)" and b: "(k', v') \<in> set (utxo_cache s)"
      and eq: "hkey_of k v = hkey_of k' v' \<or> ukey_of k v = ukey_of k' v'"
    from eq hkey_inj [OF inv cu [OF a] cu [OF b]] ukey_inj [OF inv cu [OF a] cu [OF b]]
    have "k = k'" by blast
    with cu [OF a] cu [OF b] show "k = k' \<and> v = v'" by simp
  qed
  have d2_in: "map_of db2 (hkey_of k v) = Some (take 11 v) \<and>
               map_of db2 (ukey_of k v) = Some (drop 15 v)"
    if "(k, v) \<in> set (utxo_cache s)" for k v
    unfolding db2_def using wf inj that by (rule map_of_fold_put_in)
  have d2_out: "map_of db2 key = map_of db1 key"
    if "\<forall>(k, v) \<in> set (utxo_cache s). key \<noteq> hkey_of k v \<and> key \<noteq> ukey_of k v" for key
    unfolding db2_def using wf that by (rule map_of_fold_put_other)
  have d3: "map_of db3 key = map_of db2 key" if "prefix [104] key \<or> prefix [117] key" for key
  proof -
    have "\<forall>(u, h) \<in> set (undo_infos s). key \<noteq> undo_key E h"
      using E that unfolding env_ok_def by blast
    then show ?thesis unfolding db3_def by (rule map_of_flush_undo_other)
  qed
  have ph: "prefix [104] (hkey_of k v)" for k v by (simp add: hkey_of_def)
  have pu: "prefix [117] (ukey_of k v)" for k v by (simp add: ukey_of_def)
  have nh: "\<not> prefix [104] (ukey_of k v)" for k v by (simp add: ukey_of_def)
  have nu: "\<not> prefix [117] (hkey_of k v)" for k v by (simp add: hkey_of_def)
  have rows: "map_of db3 (hkey_of k v) = Some (take 11 v) \<and>
              map_of db3 (ukey_of k v) = Some (drop 15 v)" if u: "U k = Some v" for k v
  proof (cases "map_of (utxo_cache s) k")
    case (Some v')
    with inv_cache [OF inv] u have "v' = v" by fastforce
    with Some cm have "(k, v) \<in> set (utxo_cache s)" by simp
    from d2_in [OF this] d3 [of "hkey_of k v"] d3 [of "ukey_of k v"] ph pu
    show ?thesis by simp
  next
    case None
    have o: "\<forall>(k', v') \<in> set (utxo_cache s). hkey_of k v \<noteq> hkey_of k' v' \<and>
               hkey_of k v \<noteq> ukey_of k' v'"
    proof (clarify, rule conjI)
      fix k' v' assume m: "(k', v') \<in> set (utxo_cache s)"
      show "hkey_of k v \<noteq> hkey_of k' v'"
      proof
        assume "hkey_of k v = hkey_of k' v'"
        from hkey_inj [OF inv u cu [OF m] this] m cm None show False by simp
      qed
      show "hkey_of k v \<noteq> ukey_of k' v'" by (rule hkey_ukey_neq)
    qed
    have o2: "\<forall>(k', v') \<in> set (utxo_cache s). ukey_of k v \<noteq> hkey_of k' v' \<and>
               ukey_of k v \<noteq> ukey_of k' v'"
    proof (clarify, rule conjI)
      fix k' v' assume m: "(k', v') \<in> set (utxo_cache s)"
      show "ukey_of k v \<noteq> ukey_of k' v'"
      proof
        assume "ukey_of k v = ukey_of k' v'"
        from ukey_inj [OF inv u cu [OF m] this] m cm None show False by simp
      qed
      show "ukey_of k v \<noteq> hkey_of k' v'" using hkey_ukey_neq [of k' v' k v] by simp
    qed
    from inv_rows [OF inv u None] d1 [of "hkey_of k v"] d1 [of "ukey_of k v"]
      d2_out [OF o] d2_out [OF o2] d3 [of "hkey_of k v"] d3 [of "ukey_of k v"] ph pu
    show ?thesis by simp
  qed
  have rback: "\<exists>k v. U k = Some v \<and> (key = hkey_of k v \<or> key = ukey_of k v)"
    if m: "map_of db3 key = Some a" and p: "prefix [104] key \<or> prefix [117] key" for key a
  proof (cases "\<forall>(k, v) \<in> set (utxo_cache s). key \<noteq> hkey_of k v \<and> key \<noteq> ukey_of k v")
    case False
    then obtain k v where "(k, v) \<in> set (utxo_cache s)" "key = hkey_of k v \<or> key = ukey_of k v"
      by blast
    with cu show ?thesis by blast
  next
    case True
    from d2_out [OF True] d3 [OF p] m d1 [of key]
    have nd: "key \<notin> set (db_deletes s)" and m0: "map_of (utxo_db s) key = Some a"
      by (auto split: if_splits)
    from p show ?thesis
    proof
      assume "prefix [104] key"
      from inv_hrow(3) [OF inv m0 this] nd show ?thesis by blast
    next
      assume "prefix [117] key"
      from inv_urow [OF inv m0 this] nd show ?thesis by blast
    qed
  qed
  have "utxo_inv H s' U"
  proof (rule utxo_invI)
    show "distinct (map fst (utxo_cache s'))" by (simp add: f)
  next
    fix k v assume "U k = Some v"
    then show "length k = 34 \<and> length v = 23 \<and> H (ord_of v) = Some (take 32 k)"
      using inv_entry [OF inv] by blast
  next
    fix k v assume "map_of (utxo_cache s') k = Some v"
    then show "U k = Some v" by (simp add: f)
  next
    fix k v assume u: "U k = Some v"
    from rows [OF u]
    show "map_of (utxo_db s') (hkey_of k v) = Some (take 11 v) \<and>
        map_of (utxo_db s') (ukey_of k v) = Some (drop 15 v) \<and>
        hkey_of k v \<notin> set (db_deletes s') \<and> ukey_of k v \<notin> set (db_deletes s')"
      by (simp add: f)
  next
    fix hk hx assume m: "map_of (utxo_db s') hk = Some hx" and p: "prefix [104] hk"
    from rback [of hk hx] m p f obtain k v where u: "U k = Some v"
      and e: "hk = hkey_of k v \<or> hk = ukey_of k v" by auto
    from e p nh have hk: "hk = hkey_of k v" by blast
    note a = inv_entry [OF inv u]
    have "ordinal_hash s' hk = fst (fs_tx_hash s (ord_of v))"
      unfolding hk ordinal_hash_file [OF f(4)] by (rule ordinal_hash_hkey [OF a(1,2)])
    with Hf [OF u] hkey_facts(1,6) [OF a(1,2)] u
    show "length hk = 11 \<and> ordinal_hash s' hk = H (le_int (drop 7 hk)) \<and>
        ((\<exists>k v. U k = Some v \<and> map_of (utxo_cache s') k = None \<and> hk = hkey_of k v) \<or>
         (hk \<in> set (db_deletes s') \<and>
          (\<exists>t. H (le_int (drop 7 hk)) = Some t \<and> \<not> live U s' (t @ take 2 (drop 5 hk)))))"
      unfolding hk by (auto simp: f)
  next
    fix uk a assume m: "map_of (utxo_db s') uk = Some a" and p: "prefix [117] uk"
    from rback [of uk a] m p f obtain k v where u: "U k = Some v"
      and e: "uk = hkey_of k v \<or> uk = ukey_of k v" by auto
    from e p nu have "uk = ukey_of k v" by blast
    with u show "(\<exists>k v. U k = Some v \<and> map_of (utxo_cache s') k = None \<and> uk = ukey_of k v) \<or>
        uk \<in> set (db_deletes s')"
      by (auto simp: f)
  qed
  then show ?thesis by (simp add: s'_def)
qed

section \<open>Backing up over the represented UTXO set\<close>

lemma py_slice_mid:
  "py_slice (a @ b @ c) (int (length a)) (int (length a) + int (length b)) = b"
proof -
  have 1: "norm_index (a @ b @ c) (int (length a)) = length a"
    by (simp add: norm_index_def)
  have "nat (int (length a) + int (length b)) = length a + length b" by simp
  then have 2: "norm_index (a @ b @ c) (int (length a) + int (length b)) = length a + length b"
    unfolding norm_index_def by simp
  show ?thesis unfolding py_slice_def 1 2 by simp
qed

lemma out_entries_wf:
  assumes "outs_ok E V th idx outs" "pack_I n = Some nb"
    "(k, v) \<in> set (out_entries E th n idx outs)"
  shows "length k = 34 \<and> length v = 23 \<and> ord_of v = n \<and> take 32 k = th"
  using assms(1,3)
proof (induction outs arbitrary: idx)
  case Nil
  then show ?case by simp
next
  case (Cons out outs)
  show ?case
  proof (cases "(k, v) \<in> set (out_entries E th n (idx + 1) outs)")
    case True
    from Cons.IH [OF outs_ok_tail [OF Cons.prems(1)] True] show ?thesis .
  next
    case False
    with Cons.prems(2) have sp: "spendable E out"
      and kv: "k = th @ the (pack_H (int idx))"
        "v = the (hashX_from_script E (pk_script out)) @ the (pack_I n) @
             the (pack_Q (out_value out))"
      by (auto split: if_splits)
    from sp obtain hX where hX: "hashX_from_script E (pk_script out) = Some hX" "hX \<noteq> []"
      by (auto simp: spendable_def)
    from Cons.prems(1) sp hX have lh: "length hX = 11"
      and vr: "0 \<le> out_value out" "out_value out < 2 ^ 64"
      and lt: "length th = 32" and b: "idx < 65536"
      unfolding outs_ok_def HASHX_LEN_def by auto
    from b obtain ip where ip: "pack_H (int idx) = Some ip" using pack_H_Some by blast
    from vr obtain vp where vp: "pack_Q (out_value out) = Some vp" by (auto simp: pack_Q_def)
    note ln = le_int_pack_I [OF assms(2)]
    show ?thesis
      using lh lt ln le_int_pack_H [OF ip] length_pack_Q [OF vp]
      by (simp add: kv hX ip vp assms(2) ord_of_def)
  qed
qed

lemma entries_ok_abs_tx:
  assumes e: "entries_ok H U" and v: "valid_tx E U n th" and h: "H n = Some (snd th)"
  shows "entries_ok H (abs_tx E U n th)"
  unfolding entries_ok_def
proof (intro allI impI)
  fix k w assume a: "abs_tx E U n th k = Some w"
  from v obtain nb where nb: "pack_I n = Some nb" by (auto simp: valid_tx_def pack_I_def)
  from v have ok: "outs_ok E (U |` (- set (tx_in_keys (fst th)))) (snd th) 0 (outputs (fst th))"
    by (simp add: valid_tx_def valid_outputs_def)
  show "length k = 34 \<and> length w = 23 \<and> H (ord_of w) = Some (take 32 k)"
  proof (cases "map_of (out_entries E (snd th) n 0 (outputs (fst th))) k")
    case None
    with a have "U k = Some w"
      by (auto simp: abs_tx_def map_add_def restrict_map_def split: if_splits)
    with e show ?thesis unfolding entries_ok_def by blast
  next
    case (Some w')
    with a have "w' = w" by (simp add: abs_tx_def map_add_def)
    with Some have "(k, w) \<in> set (out_entries E (snd th) n 0 (outputs (fst th)))"
      by (auto dest: map_of_SomeD)
    from out_entries_wf [OF ok nb this] h show ?thesis by simp
  qed
qed

lemma spend_outputs_ok:
  assumes "utxo_inv H s (V ++ map_of (out_entries E th n idx outs))" "outs_ok E V th idx outs"
  shows "\<exists>s'. spend_outputs E s th idx outs = Inr s' \<and> utxo_inv H s' V \<and> utxo_frame s s'"
  using assms
proof (induction outs arbitrary: s idx)
  case Nil
  then show ?case by simp
next
  case (Cons out outs)
  show ?case
  proof (cases "spendable E out")
    case False
    from Cons.prems(1) False
    have "utxo_inv H s (V ++ map_of (out_entries E th n (idx + 1) outs))" by simp
    from Cons.IH [OF this outs_ok_tail [OF Cons.prems(2)]] False
    show ?thesis by (auto simp: spendable_def)
  next
    case True
    then obtain hX where hX: "hashX_from_script E (pk_script out) = Some hX" "hX \<noteq> []"
      by (auto simp: spendable_def)
    from Cons.prems(2) have lt: "length th = 32" and b: "idx < 65536"
      and fresh: "V (th @ the (pack_H (int idx))) = None"
      and bb: "idx + length (out # outs) \<le> 65536"
      unfolding outs_ok_def by (auto dest: spec [of _ 0])
    from b obtain ip where ip: "pack_H (int idx) = Some ip" using pack_H_Some by blast
    define k where "k = th @ ip"
    define v where "v = the (hashX_from_script E (pk_script out)) @ the (pack_I n) @
             the (pack_Q (out_value out))"
    have e: "out_entries E th n idx (out # outs) = (k, v) # out_entries E th n (idx + 1) outs"
      using True ip by (simp add: k_def v_def)
    have nk: "map_of (out_entries E th n (idx + 1) outs) k = None"
    proof (rule ccontr)
      assume "map_of (out_entries E th n (idx + 1) outs) k \<noteq> None"
      then obtain w where "(k, w) \<in> set (out_entries E th n (idx + 1) outs)"
        by (auto dest: map_of_SomeD)
      from out_entries_keys [OF this] obtain j where j: "j < length outs"
        "k = th @ the (pack_H (int (idx + 1 + j)))" by blast
      from bb j(1) have "th @ the (pack_H (int (idx + 1 + j))) \<noteq> th @ the (pack_H (int idx))"
        by (intro pack_H_key_neq) auto
      with j(2) ip show False by (simp add: k_def)
    qed
    have cur: "(V ++ map_of (out_entries E th n idx (out # outs))) (th @ ip) = Some v"
      unfolding e using nk by (simp add: k_def map_add_def)
    from spend_utxo_ok [OF Cons.prems(1) cur _ lt, of "int idx"] ip obtain s1 where
      1: "spend_utxo s th (int idx) = Inr (v, s1)"
      and inv1: "utxo_inv H s1 ((V ++ map_of (out_entries E th n idx (out # outs)))((th @ ip) := None))"
      and f1: "utxo_frame s s1" by blast
    have m: "(V ++ map_of (out_entries E th n idx (out # outs)))((th @ ip) := None) =
             V ++ map_of (out_entries E th n (idx + 1) outs)"
      unfolding e using fresh ip nk
      by (intro ext) (auto simp: k_def map_add_def split: option.splits)
    define s2 where "s2 = s1\<lparr>touched := insert (slice_to v (- 12)) (touched s1)\<rparr>"
    have inv2: "utxo_inv H s2 (V ++ map_of (out_entries E th n (idx + 1) outs))"
      using inv1 unfolding m by (simp add: s2_def)
    from Cons.IH [OF inv2 outs_ok_tail [OF Cons.prems(2)]] obtain s' where
      3: "spend_outputs E s2 th (idx + 1) outs = Inr s'" and inv3: "utxo_inv H s' V"
      and f3: "utxo_frame s2 s'" by blast
    have "spend_outputs E s th idx (out # outs) = Inr s'"
      using 1 3 hX by (simp add: s2_def)
    moreover have "utxo_frame s s'"
      using f1 f3 unfolding s2_def
      by (blast intro: utxo_frame_trans [OF _ utxo_frame_trans [OF utxo_frame_touched]])
    ultimately show ?thesis using inv3 by blast
  qed
qed


lemma length_concat_23:
  "\<forall>x \<in> set xs. length x = 23 \<Longrightarrow> int (length (concat xs)) = 23 * int (length xs)"
  by (induction xs) auto

lemma restore_inputs_ok:
  assumes inv: "utxo_inv H s V"
    and d: "distinct (map in_key js)"
    and js: "\<forall>j \<in> set js. pack_H (prev_idx j) \<noteq> None \<and> V (in_key j) = None \<and>
                U (in_key j) \<noteq> None"
    and e: "entries_ok H U"
    and u: "undo_info = pre @ concat (map (\<lambda>j. the (U (in_key j))) (rev js)) @ suf"
    and n: "n = int (length pre) + 23 * int (length js)"
  shows "\<exists>s'. restore_inputs s undo_info n js = Inr (s', int (length pre)) \<and>
          utxo_inv H s' (V ++ (U |` set (map in_key js))) \<and> utxo_frame s s'"
  using inv d js u n
proof (induction js arbitrary: s V suf n)
  case Nil
  then show ?case by simp
next
  case (Cons j js)
  from Cons.prems(3) obtain v ip where v: "U (in_key j) = Some v"
    and ip: "pack_H (prev_idx j) = Some ip" and fr: "V (in_key j) = None"
    by auto
  define k where "k = in_key j"
  have k: "k = prev_hash j @ ip" using ip by (simp add: k_def in_key_def)
  from e v have wf: "length k = 34" "length v = 23" "H (ord_of v) = Some (take 32 k)"
    unfolding entries_ok_def k_def by blast+
  define mid where "mid = concat (map (\<lambda>j. the (U (in_key j))) (rev js))"
  have "\<forall>x \<in> set (map (\<lambda>j. the (U (in_key j))) (rev js)). length x = 23"
  proof
    fix x assume "x \<in> set (map (\<lambda>j. the (U (in_key j))) (rev js))"
    then obtain j' where j': "j' \<in> set js" "x = the (U (in_key j'))" by auto
    with Cons.prems(3) obtain w where "U (in_key j') = Some w" by auto
    with e j'(2) show "length x = 23" unfolding entries_ok_def by auto
  qed
  from length_concat_23 [OF this] have lm: "int (length mid) = 23 * int (length js)"
    by (simp add: mid_def)
  have ui: "undo_info = (pre @ mid) @ v @ suf"
    using Cons.prems(4) v by (simp add: mid_def)
  define n' where "n' = n - int (12 + HASHX_LEN)"
  have n': "n' = int (length (pre @ mid))"
    using Cons.prems(5) lm by (simp add: n'_def HASHX_LEN_def)
  have "py_slice ((pre @ mid) @ v @ suf) (int (length (pre @ mid)))
          (int (length (pre @ mid)) + int (length v)) = v"
    by (rule py_slice_mid)
  then have item: "py_slice undo_info n' (n' + int (12 + HASHX_LEN)) = v"
    unfolding ui n' using wf(2) by (simp add: HASHX_LEN_def)
  define s1 where "s1 = s\<lparr>utxo_cache := AList.update k v (utxo_cache s),
                           touched := insert (slice_to v (- 12)) (touched s)\<rparr>"
  from inv_put [OF Cons.prems(1) fr [folded k_def] wf]
  have inv1: "utxo_inv H s1 (V(k \<mapsto> v))" by (simp add: s1_def)
  from Cons.prems(2) have d1: "distinct (map in_key js)" and nk: "k \<notin> set (map in_key js)"
    by (simp_all add: k_def)
  have js1: "\<forall>j \<in> set js. pack_H (prev_idx j) \<noteq> None \<and> (V(k \<mapsto> v)) (in_key j) = None \<and>
                U (in_key j) \<noteq> None"
    using Cons.prems(3) nk by auto
  have u1: "undo_info = pre @ concat (map (\<lambda>j. the (U (in_key j))) (rev js)) @ (v @ suf)"
    using ui by (simp add: mid_def)
  have n1: "n' = int (length pre) + 23 * int (length js)" using n' lm by simp
  from Cons.IH [OF inv1 d1 js1 u1 n1] obtain s' where
    2: "restore_inputs s1 undo_info n' js = Inr (s', int (length pre))"
    and inv2: "utxo_inv H s' (V(k \<mapsto> v) ++ (U |` set (map in_key js)))"
    and f2: "utxo_frame s1 s'" by blast
  have m: "V(k \<mapsto> v) ++ (U |` set (map in_key js)) = V ++ (U |` set (map in_key (j # js)))"
    using nk v
    by (intro ext) (auto simp: map_add_def restrict_map_def k_def split: option.splits)
  have "restore_inputs s undo_info n (j # js) = Inr (s', int (length pre))"
    using 2 ip item by (simp add: Let_def n'_def s1_def k)
  moreover have "utxo_frame s s'"
    using f2 unfolding s1_def by (rule utxo_frame_trans [OF utxo_frame_cache_touched])
  ultimately show ?case using inv2 m by auto
qed

lemma backup_tx_ok:
  assumes inv: "utxo_inv H s (abs_tx E U m (tx, th))" and v: "valid_tx E U m (tx, th)"
    and e: "entries_ok H U"
    and u: "undo_info = pre @ concat (undo_tx U tx) @ suf"
    and n: "n = int (length pre) + int (length (concat (undo_tx U tx)))"
  shows "\<exists>s1 s2. spend_outputs E s th 0 (outputs tx) = Inr s1 \<and>
           (if is_coinbase tx then Inr (s1, n)
            else restore_inputs s1 undo_info n (rev (inputs tx))) = Inr (s2, int (length pre)) \<and>
           utxo_inv H s2 U \<and> utxo_frame s s2"
proof -
  define V where "V = U |` (- set (tx_in_keys tx))"
  from v have ok: "outs_ok E V th 0 (outputs tx)"
    by (simp add: valid_tx_def valid_outputs_def V_def)
  from inv have "utxo_inv H s (V ++ map_of (out_entries E th m 0 (outputs tx)))"
    by (simp add: abs_tx_def V_def)
  from spend_outputs_ok [OF this ok] obtain s1 where
    1: "spend_outputs E s th 0 (outputs tx) = Inr s1" and inv1: "utxo_inv H s1 V"
    and f1: "utxo_frame s s1" by blast
  show ?thesis
  proof (cases "is_coinbase tx")
    case True
    then have "V = U" "undo_tx U tx = []" by (simp_all add: V_def tx_in_keys_def undo_tx_def)
    with 1 inv1 f1 True n show ?thesis by simp
  next
    case False
    then have ks: "tx_in_keys tx = map in_key (inputs tx)" by (simp add: tx_in_keys_def)
    from v False have vi: "valid_inputs U (inputs tx)" by (simp add: valid_tx_def)
    have d: "distinct (map in_key (rev (inputs tx)))"
      using vi by (simp add: valid_inputs_def rev_map [symmetric])
    have js: "\<forall>j \<in> set (rev (inputs tx)). pack_H (prev_idx j) \<noteq> None \<and> V (in_key j) = None \<and>
                U (in_key j) \<noteq> None"
      using vi by (auto simp: valid_inputs_def V_def ks restrict_map_def)
    have ut: "undo_tx U tx = map (\<lambda>j. the (U (in_key j))) (inputs tx)"
      by (simp add: undo_tx_def ks)
    have u': "undo_info = pre @ concat (map (\<lambda>j. the (U (in_key j))) (rev (rev (inputs tx)))) @ suf"
      using u by (simp add: ut)
    have "\<forall>x \<in> set (undo_tx U tx). length x = 23"
    proof
      fix x assume "x \<in> set (undo_tx U tx)"
      then obtain j where j: "j \<in> set (inputs tx)" "x = the (U (in_key j))" by (auto simp: ut)
      with vi obtain w where "U (in_key j) = Some w" by (auto simp: valid_inputs_def)
      with e j(2) show "length x = 23" unfolding entries_ok_def by auto
    qed
    from length_concat_23 [OF this]
    have n': "n = int (length pre) + 23 * int (length (rev (inputs tx)))"
      using n by (simp add: ut)
    from restore_inputs_ok [OF inv1 d js e u' n'] obtain s2 where
      2: "restore_inputs s1 undo_info n (rev (inputs tx)) = Inr (s2, int (length pre))"
      and inv2: "utxo_inv H s2 (V ++ (U |` set (map in_key (rev (inputs tx)))))"
      and f2: "utxo_frame s1 s2" by blast
    have "V ++ (U |` set (map in_key (rev (inputs tx)))) = U"
      by (intro ext) (auto simp: V_def ks map_add_def restrict_map_def split: option.splits)
    with inv2 have "utxo_inv H s2 U" by simp
    with 1 2 False utxo_frame_trans [OF f1 f2] show ?thesis by auto
  qed
qed

lemma backup_txs_loop_append:
  "backup_txs_loop E s u n (xs @ ys) =
     (case backup_txs_loop E s u n xs of
        Inl e \<Rightarrow> Inl e
      | Inr (s1, n1) \<Rightarrow> backup_txs_loop E s1 u n1 ys)"
proof (induction xs arbitrary: s n)
  case Nil
  then show ?case by simp
next
  case (Cons a xs)
  obtain tx th where a: "a = (tx, th)" by (cases a)
  show ?case unfolding a by (auto simp: Cons.IH split: sum.splits)
qed

lemma backup_txs_loop_ok:
  assumes "utxo_inv H s (abs_txs E U m txs)" "valid_txs E U m txs" "entries_ok H U"
    "hashes_match H m txs"
    "undo_info = pre @ concat (undo_txs E U m txs) @ suf"
    "n = int (length pre) + int (length (concat (undo_txs E U m txs)))"
  shows "\<exists>s'. backup_txs_loop E s undo_info n (rev txs) = Inr (s', int (length pre)) \<and>
          utxo_inv H s' U \<and> utxo_frame s s'"
  using assms
proof (induction txs arbitrary: U m pre)
  case Nil
  then show ?case by simp
next
  case (Cons a txs)
  obtain tx th where a: "a = (tx, th)" by (cases a)
  define U1 where "U1 = abs_tx E U m (tx, th)"
  define pre1 where "pre1 = pre @ concat (undo_tx U tx)"
  from Cons.prems(2) have v: "valid_tx E U m (tx, th)" and vs: "valid_txs E U1 (m + 1) txs"
    by (simp_all add: a U1_def)
  from hashes_match_Cons [OF Cons.prems(4)] have h: "H m = Some th"
    and hs: "hashes_match H (m + 1) txs" by (simp_all add: a)
  have e1: "entries_ok H U1"
    unfolding U1_def using Cons.prems(3) v by (rule entries_ok_abs_tx) (simp add: h)
  have inv: "utxo_inv H s (abs_txs E U1 (m + 1) txs)" using Cons.prems(1) by (simp add: a U1_def)
  have u1: "undo_info = pre1 @ concat (undo_txs E U1 (m + 1) txs) @ suf"
    using Cons.prems(5) by (simp add: a U1_def pre1_def)
  have n1: "n = int (length pre1) + int (length (concat (undo_txs E U1 (m + 1) txs)))"
    using Cons.prems(6) by (simp add: a U1_def pre1_def)
  from Cons.IH [OF inv vs e1 hs u1 n1] obtain s1 where
    1: "backup_txs_loop E s undo_info n (rev txs) = Inr (s1, int (length pre1))"
    and inv1: "utxo_inv H s1 U1" and f1: "utxo_frame s s1" by blast
  have u2: "undo_info = pre @ concat (undo_tx U tx) @ (concat (undo_txs E U1 (m + 1) txs) @ suf)"
    using u1 by (simp add: pre1_def)
  have n2: "int (length pre1) = int (length pre) + int (length (concat (undo_tx U tx)))"
    by (simp add: pre1_def)
  from backup_tx_ok [OF inv1 [unfolded U1_def] v Cons.prems(3) u2 n2] obtain s2 s3 where
    2: "spend_outputs E s1 th 0 (outputs tx) = Inr s2"
    and 3: "(if is_coinbase tx then Inr (s2, int (length pre1))
            else restore_inputs s2 undo_info (int (length pre1)) (rev (inputs tx))) =
              Inr (s3, int (length pre))"
    and inv3: "utxo_inv H s3 U" and f3: "utxo_frame s1 s3" by blast
  have "backup_txs_loop E s1 undo_info (int (length pre1)) [(tx, th)] = Inr (s3, int (length pre))"
    using 2 3 by (simp split: if_splits)
  then have "backup_txs_loop E s undo_info n (rev (a # txs)) = Inr (s3, int (length pre))"
    using 1 by (simp add: a backup_txs_loop_append)
  with inv3 utxo_frame_trans [OF f1 f3] show ?case by blast
qed

subsection \<open>Backing up blocks\<close>

lemma bk_frame_refl [simp]: "bk_frame s s"
  by (simp add: bk_frame_def)

lemma bk_frame_trans: "bk_frame s s' \<Longrightarrow> bk_frame s' s'' \<Longrightarrow> bk_frame s s''"
  by (simp add: bk_frame_def)

lemma utxo_frame_bk: "utxo_frame s s' \<Longrightarrow> bk_frame s s'"
proof -
  assume "utxo_frame s s'"
  then have e: "erase_utxo s' = erase_utxo s" by (simp add: utxo_frame_def)
  have "erase_bk x = (erase_utxo x)\<lparr>tip := [], height := 0, tx_count := 0, tx_counts := []\<rparr>"
    for x by (simp add: erase_bk_def erase_utxo_def)
  with e show ?thesis by (simp add: bk_frame_def)
qed

lemma bk_frame_fields:
  assumes "bk_frame s s'"
  shows "utxo_db s' = utxo_db s" "hashes_file s' = hashes_file s" "fs_height s' = fs_height s"
    "fs_tx_count s' = fs_tx_count s" "db_height s' = db_height s"
    "db_tx_count s' = db_tx_count s" "db_tip s' = db_tip s" "headers s' = headers s"
    "tx_hashes s' = tx_hashes s" "undo_infos s' = undo_infos s" "hist s' = hist s"
    "caught_up s' = caught_up s" "headers_file s' = headers_file s"
    "raw_blocks_archive s' = raw_blocks_archive s"
    "last_flush_tx_count s' = last_flush_tx_count s" "utxo_flush_count s' = utxo_flush_count s"
proof -
  have e: "erase_bk s' = erase_bk s" using assms by (simp add: bk_frame_def)
  have r: "f s' = f s" if "\<And>x. f (erase_bk x) = f x" for f :: "bp \<Rightarrow> 'a"
    using e that by metis
  show "utxo_db s' = utxo_db s" "hashes_file s' = hashes_file s" "fs_height s' = fs_height s"
    "fs_tx_count s' = fs_tx_count s" "db_height s' = db_height s"
    "db_tx_count s' = db_tx_count s" "db_tip s' = db_tip s" "headers s' = headers s"
    "tx_hashes s' = tx_hashes s" "undo_infos s' = undo_infos s" "hist s' = hist s"
    "caught_up s' = caught_up s" "headers_file s' = headers_file s"
    "raw_blocks_archive s' = raw_blocks_archive s"
    "last_flush_tx_count s' = last_flush_tx_count s" "utxo_flush_count s' = utxo_flush_count s"
    by (rule r, simp add: erase_bk_def erase_utxo_def)+
qed

lemma bk_frame_upd [simp]:
  "bk_frame s (s\<lparr>tip := a\<rparr>)" "bk_frame s (s\<lparr>height := b\<rparr>)"
  "bk_frame s (s\<lparr>tx_count := c\<rparr>)" "bk_frame s (s\<lparr>tx_counts := d\<rparr>)"
  by (simp_all add: bk_frame_def erase_bk_def erase_utxo_def)

lemma entries_ok_abs_txs:
  assumes "entries_ok H U" "valid_txs E U m txs" "hashes_match H m txs"
  shows "entries_ok H (abs_txs E U m txs)"
  using assms
proof (induction txs arbitrary: U m)
  case Nil
  then show ?case by simp
next
  case (Cons th txs)
  from Cons.prems(2) have v: "valid_tx E U m th" and vs: "valid_txs E (abs_tx E U m th) (m + 1) txs"
    by simp_all
  note h = hashes_match_Cons [OF Cons.prems(3)]
  from entries_ok_abs_tx [OF Cons.prems(1) v h(1)] have "entries_ok H (abs_tx E U m th)" .
  from Cons.IH [OF this vs h(2)] show ?case by simp
qed

lemma backup_txs_ok:
  assumes inv: "utxo_inv H s (abs_txs E U m txs)" and v: "valid_txs E U m txs"
    and e: "entries_ok H U" and h: "hashes_match H m txs"
    and undo: "map_of (utxo_db s) (undo_key E (height s)) = Some (concat (undo_txs E U m txs))"
  shows "\<exists>s'. backup_txs E s txs = Inr s' \<and> utxo_inv H s' U \<and> bk_frame s s' \<and>
           tx_count s' = tx_count s - int (length txs) \<and> tip s' = tip s \<and>
           height s' = height s \<and> tx_counts s' = tx_counts s"
proof -
  define ui where "ui = concat (undo_txs E U m txs)"
  have r: "read_undo_info E s (height s) = Some ui"
    using undo by (simp add: read_undo_info_def db_get_def ui_def)
  have u: "ui = [] @ concat (undo_txs E U m txs) @ []" by (simp add: ui_def)
  have n: "int (length ui) = int (length ([] :: bytes)) + int (length (concat (undo_txs E U m txs)))"
    by (simp add: ui_def)
  from backup_txs_loop_ok [OF inv v e h u n] obtain s1 where
    1: "backup_txs_loop E s ui (int (length ui)) (rev txs) = Inr (s1, 0)"
    and inv1: "utxo_inv H s1 U" and f1: "utxo_frame s s1" by auto
  define s' where "s' = s1\<lparr>tx_count := tx_count s1 - int (length txs)\<rparr>"
  have b: "backup_txs E s txs = Inr s'" using r 1 by (simp add: backup_txs_def s'_def)
  have i: "utxo_inv H s' U" using inv1 unfolding s'_def
    by (subst utxo_inv_cong [of _ s1]) simp_all
  have f: "bk_frame s s'"
    unfolding s'_def using utxo_frame_bk [OF f1] by (rule bk_frame_trans) simp
  from b i f utxo_frame_fields(1-4) [OF f1] show ?thesis by (auto simp: s'_def)
qed

lemma backup_block_ok:
  assumes inv: "utxo_inv H s (abs_txs E U m (transactions b))"
    and v: "valid_txs E U m (transactions b)"
    and e: "entries_ok H U" and h: "hashes_match H m (transactions b)"
    and dec: "coin_block E (raw b) (height s) = b"
    and tp: "header_hash E (header b) = tip s"
    and undo: "map_of (utxo_db s) (undo_key E (height s)) =
                 Some (concat (undo_txs E U m (transactions b)))"
    and tc: "tx_counts s \<noteq> []"
  shows "\<exists>s'. backup_block E s (raw b) = Inr s' \<and> utxo_inv H s' U \<and> bk_frame s s' \<and>
     tip s' = header_prevhash E (header b) \<and> height s' = height s - 1 \<and>
     tx_count s' = tx_count s - int (length (transactions b)) \<and>
     tx_counts s' = butlast (tx_counts s)"
proof -
  define s0 where "s0 = s\<lparr>tip := header_prevhash E (header b)\<rparr>"
  have inv0: "utxo_inv H s0 (abs_txs E U m (transactions b))"
    using inv unfolding s0_def by (subst utxo_inv_cong [of _ s]) simp_all
  have undo0: "map_of (utxo_db s0) (undo_key E (height s0)) =
                 Some (concat (undo_txs E U m (transactions b)))"
    using undo by (simp add: s0_def)
  from backup_txs_ok [OF inv0 v e h undo0] obtain s1 where
    1: "backup_txs E s0 (transactions b) = Inr s1" and inv1: "utxo_inv H s1 U"
    and f1: "bk_frame s0 s1"
    and t1: "tx_count s1 = tx_count s0 - int (length (transactions b))" "tip s1 = tip s0"
      "height s1 = height s0" "tx_counts s1 = tx_counts s0" by blast
  define s' where "s' = s1\<lparr>height := height s1 - 1, tx_counts := butlast (tx_counts s1)\<rparr>"
  have b: "backup_block E s (raw b) = Inr s'"
    using 1 tp dec tc t1(4) by (simp add: backup_block_def Let_def s0_def [symmetric] s'_def)
      (simp add: s0_def)
  have i: "utxo_inv H s' U" using inv1 unfolding s'_def
    by (subst utxo_inv_cong [of _ s1]) simp_all
  have "bk_frame s s0" by (simp add: s0_def)
  moreover have "bk_frame s1 s'" by (simp add: s'_def bk_frame_def erase_bk_def erase_utxo_def)
  ultimately have f: "bk_frame s s'" using f1 by (blast intro: bk_frame_trans)
  from b i f t1 show ?thesis by (auto simp: s'_def s0_def)
qed

lemma butlast_take':
  "n \<le> length xs \<Longrightarrow> butlast (take n xs) = take (n - 1) xs"
  by (simp add: butlast_take)

lemma backup_blocks_loop_ok:
  assumes "utxo_inv H s (abs_blocks E U m blocks)" "valid_blocks E U m blocks" "entries_ok H U"
    "hashes_match H m (all_txs blocks)" "decodes E h blocks" "connects E t blocks"
    "height s = h + int (length blocks)"
    "tip s = (if blocks = [] then t else header_hash E (header (last blocks)))"
    "\<forall>(u, hh) \<in> set (undo_list E U m h blocks).
        map_of (utxo_db s) (undo_key E hh) = Some (concat u)"
    "length blocks \<le> length (tx_counts s)"
  shows "\<exists>s'. backup_blocks_loop E s (map raw (rev blocks)) = Inr s' \<and> utxo_inv H s' U \<and>
     bk_frame s s' \<and> height s' = h \<and> tip s' = t \<and>
     tx_count s' = tx_count s - int (length (all_txs blocks)) \<and>
     tx_counts s' = take (length (tx_counts s) - length blocks) (tx_counts s)"
  using assms
proof (induction blocks arbitrary: U m h t)
  case Nil
  then show ?case by (simp add: all_txs_def)
next
  case (Cons b rest)
  define U1 where "U1 = abs_txs E U m (transactions b)"
  define m1 where "m1 = m + int (length (transactions b))"
  define t1 where "t1 = header_hash E (header b)"
  from Cons.prems(2) have v: "valid_txs E U m (transactions b)"
    and vs: "valid_blocks E U1 m1 rest" by (simp_all add: U1_def m1_def)
  have "hashes_match H m (transactions b @ all_txs rest)"
    using Cons.prems(4) by (simp add: all_txs_def)
  from hashes_match_append [OF this] have hm: "hashes_match H m (transactions b)"
    and hms: "hashes_match H m1 (all_txs rest)" by (simp_all add: m1_def)
  have e1: "entries_ok H U1"
    unfolding U1_def using Cons.prems(3) v hm by (rule entries_ok_abs_txs)
  have inv: "utxo_inv H s (abs_blocks E U1 m1 rest)"
    using Cons.prems(1) by (simp add: U1_def m1_def)
  from Cons.prems(5) have dec: "coin_block E (raw b) (h + 1) = b" and decs: "decodes E (h + 1) rest"
    by simp_all
  from Cons.prems(6) have con: "header_prevhash E (header b) = t" and cons: "connects E t1 rest"
    by (simp_all add: t1_def)
  have hs: "height s = (h + 1) + int (length rest)" using Cons.prems(7) by simp
  have ts: "tip s = (if rest = [] then t1 else header_hash E (header (last rest)))"
    using Cons.prems(8) by (simp add: t1_def)
  have us: "\<forall>(u, hh) \<in> set (undo_list E U1 m1 (h + 1) rest).
        map_of (utxo_db s) (undo_key E hh) = Some (concat u)"
    using Cons.prems(9) by (simp add: U1_def m1_def)
  have ub: "map_of (utxo_db s) (undo_key E (h + 1)) = Some (concat (undo_txs E U m (transactions b)))"
    using Cons.prems(9) by simp
  have ls: "length rest \<le> length (tx_counts s)" using Cons.prems(10) by simp
  from Cons.IH [OF inv vs e1 hms decs cons hs ts us ls] obtain s1 where
    1: "backup_blocks_loop E s (map raw (rev rest)) = Inr s1" and inv1: "utxo_inv H s1 U1"
    and f1: "bk_frame s s1" and h1: "height s1 = h + 1" and tp1: "tip s1 = t1"
    and c1: "tx_count s1 = tx_count s - int (length (all_txs rest))"
    and cs1: "tx_counts s1 = take (length (tx_counts s) - length rest) (tx_counts s)"
    by blast
  have dec1: "coin_block E (raw b) (height s1) = b" using dec h1 by simp
  have tpb: "header_hash E (header b) = tip s1" using tp1 by (simp add: t1_def)
  have ub1: "map_of (utxo_db s1) (undo_key E (height s1)) =
               Some (concat (undo_txs E U m (transactions b)))"
    using ub h1 bk_frame_fields(1) [OF f1] by simp
  have ne: "tx_counts s1 \<noteq> []"
  proof -
    from Cons.prems(10) have "0 < length (tx_counts s) - length rest" by simp
    moreover have "length (tx_counts s1) = length (tx_counts s) - length rest"
      unfolding cs1 by simp
    ultimately show ?thesis by auto
  qed
  from backup_block_ok [OF inv1 [unfolded U1_def] v Cons.prems(3) hm dec1 tpb ub1 ne]
  obtain s2 where
    2: "backup_block E s1 (raw b) = Inr s2" and inv2: "utxo_inv H s2 U" and f2: "bk_frame s1 s2"
    and tp2: "tip s2 = header_prevhash E (header b)" and h2: "height s2 = height s1 - 1"
    and c2: "tx_count s2 = tx_count s1 - int (length (transactions b))"
    and cs2: "tx_counts s2 = butlast (tx_counts s1)" by blast
  have "backup_blocks_loop E s (map raw (rev rest) @ [raw b]) = backup_blocks_loop E s1 [raw b]"
    using 1 by (rule backup_blocks_loop_append)
  then have l: "backup_blocks_loop E s (map raw (rev (b # rest))) = Inr s2" using 2 by simp
  have cs: "tx_counts s2 = take (length (tx_counts s) - length (b # rest)) (tx_counts s)"
    unfolding cs2 cs1 by (simp add: butlast_take)
  have c: "tx_count s2 = tx_count s - int (length (all_txs (b # rest)))"
    using c1 c2 by (simp add: all_txs_def)
  from l inv2 bk_frame_trans [OF f1 f2] h1 h2 tp2 con c cs show ?case by auto
qed

end
